theory Spec2Isabelle
  imports Main "HOL-Library.Word" "HOL-Library.Char_ord" "HOL-Library.List_Lexorder" "HOL-Library.AList"
begin

section \<open>Go values: bytes, errors, heap objects\<close>

text \<open>
  A Go string or byte slice is a \<^typ>\<open>string\<close> (a list of 8-bit characters). Pointers
  are addresses into a heap of objects; a nil pointer or nil interface value is \<open>None\<close>.
  The heap holds the objects that the composer and its stream share by reference:
  \<^item> \<open>Buffer b\<close>: a \<open>*bytes.Buffer\<close> whose unread bytes are \<open>b\<close>;
  \<^item> \<open>Source bs caps eager\<close>: a caller-supplied \<open>io.Reader\<close> that still has the bytes
    \<open>bs\<close> to deliver; call number \<open>i\<close> delivers at most \<open>caps ! i\<close> bytes (a cap of 0 is
    a \<open>(0, nil)\<close> answer; once the caps are used up only the request size limits a
    call), and \<open>eager\<close> says whether the last bytes come together with \<open>io.EOF\<close>;
  \<^item> \<open>File c off closed\<close>: an \<open>*os.File\<close> on a regular file with contents \<open>c\<close>, read
    offset \<open>off\<close>, and whether the handle has been closed.
\<close>

type_synonym addr = nat

datatype error = EOF | ErrClosed | ErrNotExist | ErrBoundary

datatype obj =
    Buffer string
  | Source string "nat list" bool
  | File string nat bool

type_synonym heap = "obj list"

datatype ret = Ret "error option" | Panics

definition CR :: char where "CR = CHR 0x0D"

definition LF :: char where "LF = CHR 0x0A"

definition DQ :: char where "DQ = CHR 0x22"

definition BS :: char where "BS = CHR 0x5C"

definition SQ :: char where "SQ = CHR 0x27"

definition BQ :: char where "BQ = CHR 0x60"

definition CRLF :: string where "CRLF = [CR, LF]"

definition lookup :: "heap \<Rightarrow> addr \<Rightarrow> obj option" where
  "lookup h a = (if a < length h then Some (h ! a) else None)"

text \<open>Allocation (\<open>new\<close>, \<open>bytes.NewBufferString\<close>, \<open>os.Open\<close>): a fresh address.\<close>

definition alloc :: "obj \<Rightarrow> heap \<Rightarrow> addr \<times> heap" where
  "alloc ob h = (length h, h @ [ob])"

subsection \<open>Reading one object\<close>

text \<open>
  \<open>obj_Read k ob\<close> is \<open>ob.Read(p)\<close> with \<open>len(p) = k\<close>: the bytes returned, the error,
  and the object afterwards.
  \<^item> \<open>bytes.Buffer.Read\<close>: an empty buffer answers \<open>(0, io.EOF)\<close>, or \<open>(0, nil)\<close> when
    \<open>len(p) = 0\<close>; otherwise it hands out \<open>min k (length b)\<close> bytes.
  \<^item> \<open>os.File.Read\<close>: a closed handle fails; \<open>len(p) = 0\<close> answers \<open>(0, nil)\<close>; at the
    end of the file \<open>(0, io.EOF)\<close>.
\<close>

fun obj_Read :: "nat \<Rightarrow> obj \<Rightarrow> string \<times> error option \<times> obj" where
  "obj_Read k (Buffer b) =
     (if b = [] then ([], (if k = 0 then None else Some EOF), Buffer [])
      else (take k b, None, Buffer (drop k b)))"
| "obj_Read k (Source bs (0 # cs) eager) = ([], None, Source bs cs eager)"
| "obj_Read k (Source bs caps eager) =
     (let n = min k (case caps of [] \<Rightarrow> length bs | c # _ \<Rightarrow> min c (length bs)) in
      if bs = [] then ([], Some EOF, Source [] (tl caps) eager)
      else (take n bs, (if eager \<and> drop n bs = [] then Some EOF else None),
            Source (drop n bs) (tl caps) eager))"
| "obj_Read k (File c off closed) =
     (if closed then ([], Some ErrClosed, File c off closed)
      else if k = 0 then ([], None, File c off closed)
      else if length c \<le> off then ([], Some EOF, File c off closed)
      else (take k (drop off c), None, File c (off + min k (length c - off)) closed))"

subsection \<open>io.MultiReader and the consumer's read loop\<close>

text \<open>
  An event records one call of \<open>Read\<close> on an underlying object: its address, the bytes
  it returned and its error.
\<close>

type_synonym event = "addr \<times> string \<times> error option"

text \<open>
  \<open>multiReader.Read\<close> (Go's \<open>io\<close> package). The state of a multiReader is its slice of
  remaining readers. A nil interface value in the slice panics when its \<open>Read\<close> is
  called (nil dereference). The result is: bytes, error or panic, the remaining readers,
  the heap, and the calls made on the underlying objects.
  \<^verbatim>\<open>
  for len(mr.readers) > 0 {
      n, err = mr.readers[0].Read(p)
      if err == EOF { mr.readers = mr.readers[1:] }
      if n > 0 || err != EOF {
          if err == EOF && len(mr.readers) > 0 { err = nil }
          return
      }
  }
  return 0, EOF
  \<close>
\<close>

fun mr_Read :: "nat \<Rightarrow> addr option list \<Rightarrow> heap
    \<Rightarrow> string \<times> ret \<times> addr option list \<times> heap \<times> event list" where
  "mr_Read k [] h = ([], Ret (Some EOF), [], h, [])"
| "mr_Read k (None # rs) h = ([], Panics, None # rs, h, [])"
| "mr_Read k (Some a # rs) h =
     (case lookup h a of
        None \<Rightarrow> ([], Panics, Some a # rs, h, [])
      | Some ob \<Rightarrow>
         (case obj_Read k ob of (out, err, ob') \<Rightarrow>
            if out \<noteq> [] \<or> err \<noteq> Some EOF
            then (out,
                  Ret (if err = Some EOF \<and> rs \<noteq> [] then None else err),
                  (if err = Some EOF then rs else Some a # rs),
                  h[a := ob'], [(a, out, err)])
            else (case mr_Read k rs (h[a := ob']) of
                    (out2, r2, rs2, h2, evs) \<Rightarrow> (out2, r2, rs2, h2, (a, out, err) # evs))))"

text \<open>
  How a consumer's read loop ends: the stream answered \<open>io.EOF\<close>, it answered another
  error, or the program panicked.
\<close>

datatype outcome = Drained | Failed error | Panicked

text \<open>
  The termination measure of the read loop: what the remaining readers can still
  answer before they are used up.
\<close>

fun obj_weight :: "obj \<Rightarrow> nat" where
  "obj_weight (Buffer b) = length b"
| "obj_weight (Source bs caps eager) = length bs + length caps"
| "obj_weight (File c off closed) = length c - off"

definition rdr_weight :: "heap \<Rightarrow> addr option \<Rightarrow> nat" where
  "rdr_weight h r = (case r of None \<Rightarrow> 1
     | Some a \<Rightarrow> (case lookup h a of None \<Rightarrow> 1 | Some ob \<Rightarrow> Suc (obj_weight ob)))"

definition mr_weight :: "addr option list \<Rightarrow> heap \<Rightarrow> nat" where
  "mr_weight rs h = sum_list (map (rdr_weight h) rs)"

lemma obj_Read_weight:
  "obj_Read (Suc k) ob = (out, err, ob') \<Longrightarrow>
     obj_weight ob' \<le> obj_weight ob \<and> (err = None \<longrightarrow> obj_weight ob' < obj_weight ob)"
  by (induction "Suc k" ob rule: obj_Read.induct)
     (auto simp: Let_def split: if_splits list.splits)

lemma rdr_weight_update:
  "lookup h a = Some ob \<Longrightarrow> obj_weight ob' \<le> obj_weight ob \<Longrightarrow>
     rdr_weight (h[a := ob']) r \<le> rdr_weight h r"
  by (auto simp: rdr_weight_def lookup_def nth_list_update split: option.splits if_splits)

lemma mr_weight_update:
  "lookup h a = Some ob \<Longrightarrow> obj_weight ob' \<le> obj_weight ob \<Longrightarrow>
     mr_weight rs (h[a := ob']) \<le> mr_weight rs h"
  unfolding mr_weight_def
  by (induction rs) (auto simp: rdr_weight_update add_le_mono)

lemma mr_weight_head:
  "lookup h a = Some ob \<Longrightarrow> obj_weight ob' < obj_weight ob \<Longrightarrow>
     mr_weight (Some a # rs) (h[a := ob']) < mr_weight (Some a # rs) h"
proof -
  assume l: "lookup h a = Some ob" and w: "obj_weight ob' < obj_weight ob"
  have "rdr_weight (h[a := ob']) (Some a) < rdr_weight h (Some a)"
    using l w by (auto simp: rdr_weight_def lookup_def)
  moreover have "mr_weight rs (h[a := ob']) \<le> mr_weight rs h"
    using l w by (intro mr_weight_update) auto
  ultimately show ?thesis by (simp add: mr_weight_def)
qed

lemma mr_weight_tail: "mr_weight rs h < mr_weight (r # rs) h"
  by (simp add: mr_weight_def rdr_weight_def split: option.splits)

lemma mr_Read_weight:
  "mr_Read (Suc k) rs h = (out, Ret None, rs', h', evs) \<Longrightarrow> mr_weight rs' h' < mr_weight rs h"
proof (induction rs arbitrary: h out rs' h' evs)
  case Nil
  then show ?case by simp
next
  case (Cons r rs)
  show ?case
  proof (cases r)
    case None
    with Cons.prems show ?thesis by simp
  next
    case (Some a)
    show ?thesis
    proof (cases "lookup h a")
      case None
      with Cons.prems Some show ?thesis by simp
    next
      case (Some ob)
      obtain o1 e1 ob' where rd: "obj_Read (Suc k) ob = (o1, e1, ob')"
        by (cases "obj_Read (Suc k) ob") auto
      note w = obj_Read_weight [OF rd]
      have le: "mr_weight rs (h[a := ob']) \<le> mr_weight rs h"
        using Some w by (intro mr_weight_update) auto
      show ?thesis
      proof (cases "o1 \<noteq> [] \<or> e1 \<noteq> Some EOF")
        case True
        show ?thesis
        proof (cases "e1 = Some EOF")
          case True
          with \<open>o1 \<noteq> [] \<or> e1 \<noteq> Some EOF\<close> Cons.prems \<open>r = Some a\<close> Some rd
          have "rs' = rs" "h' = h[a := ob']" by (auto split: if_splits)
          with le mr_weight_tail [of rs h r] show ?thesis by simp
        next
          case False
          with True Cons.prems \<open>r = Some a\<close> Some rd
          have "rs' = Some a # rs" "h' = h[a := ob']" "e1 = None" by (auto split: if_splits)
          with w Some \<open>r = Some a\<close> mr_weight_head [of h a ob ob' rs] show ?thesis by simp
        qed
      next
        case False
        with Cons.prems \<open>r = Some a\<close> Some rd
        obtain evs2 where "mr_Read (Suc k) rs (h[a := ob']) = (out, Ret None, rs', h', evs2)"
          by (auto split: prod.splits)
        from Cons.IH [OF this] le mr_weight_tail [of rs h r] show ?thesis by simp
      qed
    qed
  qed
qed

text \<open>
  Fully draining a stream, as \<open>io.Copy\<close> and \<open>io.ReadAll\<close> do: call \<open>Read\<close> until it
  answers an error. The consumer chooses the size of each request: call number \<open>i\<close> asks
  for \<open>Suc (sz i)\<close> bytes (never zero). The result is how the loop ended, all bytes
  received, the remaining readers, the heap, and every call made on an underlying object,
  in order.
\<close>

function ReadAll :: "(nat \<Rightarrow> nat) \<Rightarrow> nat \<Rightarrow> addr option list \<Rightarrow> heap
    \<Rightarrow> outcome \<times> string \<times> addr option list \<times> heap \<times> event list" where
  "ReadAll sz i rs h =
     (case mr_Read (Suc (sz i)) rs h of
        (out, Panics, rs', h', evs) \<Rightarrow> (Panicked, out, rs', h', evs)
      | (out, Ret (Some e), rs', h', evs) \<Rightarrow>
          ((if e = EOF then Drained else Failed e), out, rs', h', evs)
      | (out, Ret None, rs', h', evs) \<Rightarrow>
          (case ReadAll sz (Suc i) rs' h' of
             (oc, out2, rs2, h2, evs2) \<Rightarrow> (oc, out @ out2, rs2, h2, evs @ evs2)))"
  by pat_completeness auto

termination
  by (relation "measure (\<lambda>(sz, i, rs, h). mr_weight rs h)") (auto dest: mr_Read_weight [OF sym])

declare ReadAll.simps [simp del]

section \<open>Library functions the composer calls\<close>

subsection \<open>strings.Replacer over single-byte patterns\<close>

text \<open>
  \<open>strings.NewReplacer(old1, new1, old2, new2, ...).Replace(s)\<close> where every old string
  is a single byte: going through \<open>s\<close> from left to right, a byte that has an entry is
  replaced by its new string and every other byte is copied. Of two entries for the
  same byte the first wins.
\<close>

fun Replace :: "(char \<times> string) list \<Rightarrow> string \<Rightarrow> string" where
  "Replace tbl [] = []"
| "Replace tbl (c # s) = (case map_of tbl c of Some new \<Rightarrow> new | None \<Rightarrow> [c]) @ Replace tbl s"

subsection \<open>fmt: the verb \<open>%v\<close>\<close>

text \<open>
  A value of type \<open>any\<close> (an interface value with its dynamic type): nil, an
  \<open>int64\<close>, an \<open>int\<close> (64 bits wide here), a string or a bool.
\<close>

datatype any = ANil | AInt64 "64 word" | AInt "64 word" | AString string | ABool bool

definition digit :: "nat \<Rightarrow> char" where
  "digit d = char_of (48 + d)"

function show_nat :: "nat \<Rightarrow> string" where
  "show_nat n = (if n < 10 then [digit n] else show_nat (n div 10) @ [digit (n mod 10)])"
  by pat_completeness auto

termination
  by (relation "measure id") auto

definition show_int :: "int \<Rightarrow> string" where
  "show_int i = (if i < 0 then CHR ''-'' # show_nat (nat (- i)) else show_nat (nat i))"

fun Sprint_v :: "any \<Rightarrow> string" where
  "Sprint_v ANil = ''<nil>''"
| "Sprint_v (AInt64 x) = show_int (sint x)"
| "Sprint_v (AInt x) = show_int (sint x)"
| "Sprint_v (AString s) = s"
| "Sprint_v (ABool b) = (if b then ''true'' else ''false'')"

subsection \<open>net/textproto: MIME headers\<close>

definition isLower :: "char \<Rightarrow> bool" where
  "isLower c = (CHR ''a'' \<le> c \<and> c \<le> CHR ''z'')"

definition isUpper :: "char \<Rightarrow> bool" where
  "isUpper c = (CHR ''A'' \<le> c \<and> c \<le> CHR ''Z'')"

definition isDigit :: "char \<Rightarrow> bool" where
  "isDigit c = (CHR ''0'' \<le> c \<and> c \<le> CHR ''9'')"

definition toUpper :: "char \<Rightarrow> char" where
  "toUpper c = char_of (of_char c - (32::nat))"

definition toLower :: "char \<Rightarrow> char" where
  "toLower c = char_of (of_char c + (32::nat))"

text \<open>The bytes of an RFC 7230 token.\<close>

definition validHeaderFieldByte :: "char \<Rightarrow> bool" where
  "validHeaderFieldByte c =
     (isLower c \<or> isUpper c \<or> isDigit c \<or> c \<in> set (''!#$%&*+-.^_|~'' @ [SQ, BQ]))"

fun canonical :: "bool \<Rightarrow> string \<Rightarrow> string" where
  "canonical upper [] = []"
| "canonical upper (c # cs) =
     (let c' = (if upper \<and> isLower c then toUpper c
                else if \<not> upper \<and> isUpper c then toLower c else c)
      in c' # canonical (c' = CHR ''-'') cs)"

text \<open>
  \<open>textproto.CanonicalMIMEHeaderKey\<close>: a key made of token bytes only gets an upper-case
  letter first and after every hyphen and lower-case letters elsewhere; any other key is
  returned unchanged.
\<close>

definition CanonicalMIMEHeaderKey :: "string \<Rightarrow> string" where
  "CanonicalMIMEHeaderKey s = (if list_all validHeaderFieldByte s then canonical True s else s)"

text \<open>
  \<open>textproto.MIMEHeader\<close> is a \<open>map[string][]string\<close>: an association list with
  distinct keys. \<open>h.Set(key, value)\<close> is \<open>h[CanonicalMIMEHeaderKey(key)] = []string{value}\<close>.
\<close>

type_synonym MIMEHeader = "(string \<times> string list) list"

definition MIMEHeader_Set :: "string \<Rightarrow> string \<Rightarrow> MIMEHeader \<Rightarrow> MIMEHeader" where
  "MIMEHeader_Set key v hdr = AList.update (CanonicalMIMEHeaderKey key) [v] hdr"

subsection \<open>bytes.Buffer\<close>

text \<open>
  \<open>Len\<close> is the number of unread bytes; \<open>Write\<close> appends and never fails. A method
  called through a nil pointer panics: \<open>buf_Len\<close> answers \<open>None\<close> then.
\<close>

definition buf_Len :: "addr option \<Rightarrow> heap \<Rightarrow> nat option" where
  "buf_Len p h =
     (case p of None \<Rightarrow> None
      | Some a \<Rightarrow> (case lookup h a of Some (Buffer b) \<Rightarrow> Some (length b) | _ \<Rightarrow> None))"

definition buf_Write :: "addr \<Rightarrow> string \<Rightarrow> heap \<Rightarrow> heap" where
  "buf_Write a p h = (case lookup h a of Some (Buffer b) \<Rightarrow> h[a := Buffer (b @ p)] | _ \<Rightarrow> h)"

subsection \<open>mime/multipart.Writer\<close>

text \<open>
  The writer's destination \<open>w\<close> (here \<open>dst\<close>: the address of the buffer it writes to),
  its boundary, and whether a part has been created (\<open>lastpart != nil\<close>).
\<close>

record Writer =
  dst :: addr
  boundary :: string
  lastpart :: bool

text \<open>\<open>multipart.NewWriter(w)\<close>; \<open>rnd\<close> is the boundary that \<open>randomBoundary()\<close> draws.\<close>

definition NewWriter :: "string \<Rightarrow> addr \<Rightarrow> Writer" where
  "NewWriter rnd a = \<lparr>dst = a, boundary = rnd, lastpart = False\<rparr>"

text \<open>
  The characters \<open>SetBoundary\<close> accepts (RFC 2046): letters, digits, the listed
  punctuation, and a space that is not the last character. The library's loop ranges
  over runes; a byte outside ASCII is rejected there as it is here.
\<close>

fun boundary_chars_ok :: "string \<Rightarrow> bool" where
  "boundary_chars_ok [] = True"
| "boundary_chars_ok (c # cs) =
     ((isUpper c \<or> isLower c \<or> isDigit c \<or> c \<in> set (SQ # ''()+_,-./:=?'')
        \<or> (c = CHR '' '' \<and> cs \<noteq> []))
      \<and> boundary_chars_ok cs)"

definition SetBoundary :: "string \<Rightarrow> Writer \<Rightarrow> error option \<times> Writer" where
  "SetBoundary b w =
     (if lastpart w then (Some ErrBoundary, w)
      else if length b < 1 \<or> 70 < length b then (Some ErrBoundary, w)
      else if \<not> boundary_chars_ok b then (Some ErrBoundary, w)
      else (None, w\<lparr>boundary := b\<rparr>))"

text \<open>
  \<open>CreatePart\<close>: the delimiter line (with a leading CRLF from the second part on), one
  line per header in the order of the sorted keys, and an empty line. Writing to a
  \<open>bytes.Buffer\<close> cannot fail, so the error is always nil.
\<close>

definition header_lines :: "MIMEHeader \<Rightarrow> string" where
  "header_lines hdr =
     concat (map (\<lambda>k. concat (map (\<lambda>v. k @ '': '' @ v @ CRLF)
                                (case map_of hdr k of None \<Rightarrow> [] | Some vs \<Rightarrow> vs)))
                 (sort (map fst hdr)))"

definition CreatePart :: "MIMEHeader \<Rightarrow> Writer \<Rightarrow> heap \<Rightarrow> error option \<times> Writer \<times> heap" where
  "CreatePart hdr w h =
     (let b = (if lastpart w then CRLF @ ''--'' @ boundary w @ CRLF
               else ''--'' @ boundary w @ CRLF)
              @ header_lines hdr @ CRLF
      in (None, w\<lparr>lastpart := True\<rparr>, buf_Write (dst w) b h))"

text \<open>
  The library's own quoting of names: a backslash before a backslash and before a double
  quote, and LF and CR percent-encoded. Up to Go 1.24 the table held the first two
  entries only, the ones this repository copied into its own \<open>escapeQuotes\<close>.
\<close>

definition mime_escapeQuotes :: "string \<Rightarrow> string" where
  "mime_escapeQuotes s =
     Replace [(BS, [BS, BS]), (DQ, [BS, DQ]), (LF, ''%0A''), (CR, ''%0D'')] s"

definition CreateFormField :: "string \<Rightarrow> Writer \<Rightarrow> heap \<Rightarrow> error option \<times> Writer \<times> heap" where
  "CreateFormField fieldname w h =
     CreatePart
       (MIMEHeader_Set ''Content-Disposition''
          (''form-data; name='' @ [DQ] @ mime_escapeQuotes fieldname @ [DQ]) [])
       w h"

definition CreateFormFile :: "string \<Rightarrow> string \<Rightarrow> Writer \<Rightarrow> heap \<Rightarrow> error option \<times> Writer \<times> heap" where
  "CreateFormFile fieldname filename w h =
     CreatePart
       (MIMEHeader_Set ''Content-Type'' ''application/octet-stream''
         (MIMEHeader_Set ''Content-Disposition''
            (''form-data; name='' @ [DQ] @ mime_escapeQuotes fieldname @ [DQ]
              @ ''; filename='' @ [DQ] @ mime_escapeQuotes filename @ [DQ]) []))
       w h"

definition WriteField :: "string \<Rightarrow> string \<Rightarrow> Writer \<Rightarrow> heap \<Rightarrow> error option \<times> Writer \<times> heap" where
  "WriteField fieldname v w h =
     (case CreateFormField fieldname w h of
        (Some e, w', h') \<Rightarrow> (Some e, w', h')
      | (None, w', h') \<Rightarrow> (None, w', buf_Write (dst w') v h'))"

subsection \<open>os and path/filepath\<close>

text \<open>
  The file system maps the path of a regular file to its contents. \<open>os.Open\<close> fails on a
  path that has no file and otherwise allocates an open handle at offset 0;
  \<open>fh.Stat()\<close> followed by \<open>stat.Size()\<close> gives the length of the file.
\<close>

type_synonym filesystem = "string \<Rightarrow> string option"

definition os_Open :: "filesystem \<Rightarrow> string \<Rightarrow> heap \<Rightarrow> (error + addr) \<times> heap" where
  "os_Open fs name h =
     (case fs name of
        None \<Rightarrow> (Inl ErrNotExist, h)
      | Some c \<Rightarrow> (case alloc (File c 0 False) h of (a, h') \<Rightarrow> (Inr a, h')))"

definition file_Stat :: "addr \<Rightarrow> heap \<Rightarrow> error + nat" where
  "file_Stat a h =
     (case lookup h a of
        Some (File c off closed) \<Rightarrow> (if closed then Inl ErrClosed else Inr (length c))
      | _ \<Rightarrow> Inl ErrClosed)"

text \<open>\<open>os.File.Close\<close>: what releasing a handle is. The composer never calls it.\<close>

definition file_Close :: "addr \<Rightarrow> heap \<Rightarrow> error option \<times> heap" where
  "file_Close a h =
     (case lookup h a of
        Some (File c off closed) \<Rightarrow>
          (if closed then (Some ErrClosed, h) else (None, h[a := File c off True]))
      | _ \<Rightarrow> (Some ErrClosed, h))"

definition is_open :: "heap \<Rightarrow> addr \<Rightarrow> bool" where
  "is_open h a = (case lookup h a of Some (File c off closed) \<Rightarrow> \<not> closed | _ \<Rightarrow> False)"

text \<open>
  \<open>filepath.Base\<close> (Unix): the last element of the path, after trailing slashes are
  removed; \<open>.\<close> for the empty path and \<open>/\<close> for a path of slashes only.
\<close>

definition Base :: "string \<Rightarrow> string" where
  "Base path =
     (if path = [] then ''.''
      else let p = rev (dropWhile (\<lambda>c. c = CHR ''/'') (rev path));
               q = rev (takeWhile (\<lambda>c. c \<noteq> CHR ''/'') (rev p))
           in if q = [] then ''/'' else q)"

subsection \<open>io.Copy into a buffer\<close>

text \<open>
  \<open>io.Copy(part, data)\<close>: read \<open>data\<close> until it answers an error (requests of 32 KiB) and
  append what was read to the buffer behind the part. The loop is the read loop above
  on the one reader \<open>data\<close>; a nil \<open>data\<close> panics at the first \<open>Read\<close>.
\<close>

definition io_Copy :: "addr \<Rightarrow> addr option \<Rightarrow> heap \<Rightarrow> ret \<times> heap" where
  "io_Copy d src h =
     (case ReadAll (\<lambda>i. 32767) 0 [src] h of
        (oc, out, rs', h', evs) \<Rightarrow>
          ((case oc of Drained \<Rightarrow> Ret None | Failed e \<Rightarrow> Ret (Some e) | Panicked \<Rightarrow> Panics),
           buf_Write d out h'))"

section \<open>The composer (streamer.go)\<close>

record MultipartStreamer =
  ContentType :: string
  bodyBuffer :: "addr option"
  bodyWriter :: Writer
  closeBuffer :: "addr option"
  reader :: "addr option"
  contentLength :: "64 word"

type_synonym MSOption = "MultipartStreamer \<Rightarrow> heap \<Rightarrow> MultipartStreamer \<times> heap"

text \<open>\<open>WithBoundary\<close> drops the error that \<open>SetBoundary\<close> returns.\<close>

definition WithBoundary :: "string \<Rightarrow> MSOption" where
  "WithBoundary b = (\<lambda>ms h. (ms\<lparr>bodyWriter := snd (SetBoundary b (bodyWriter ms))\<rparr>, h))"

text \<open>\<open>New\<close>; \<open>rnd\<close> is the random boundary that \<open>multipart.NewWriter\<close> starts with.\<close>

definition New :: "string \<Rightarrow> MSOption list \<Rightarrow> heap \<Rightarrow> MultipartStreamer \<times> heap" where
  "New rnd opts h =
     (case alloc (Buffer []) h of (bb, h1) \<Rightarrow>
      (case fold (\<lambda>fopt (m, hp). fopt m hp) opts
              (\<lparr>ContentType = [], bodyBuffer = Some bb, bodyWriter = NewWriter rnd bb,
                closeBuffer = None, reader = None, contentLength = 0\<rparr>, h1)
       of (m, h2) \<Rightarrow>
        (let b = boundary (bodyWriter m);
             closeBoundary = CRLF @ ''--'' @ b @ ''--'' @ CRLF
         in case alloc (Buffer closeBoundary) h2 of (cb, h3) \<Rightarrow>
              (m\<lparr>ContentType := ''multipart/form-data; boundary='' @ b,
                 closeBuffer := Some cb\<rparr>, h3))))"

text \<open>
  \<open>WriteFields\<close>: the list is the map's entries in the order the \<open>range\<close> loop visits
  them. \<open>WriteReader\<close>: \<open>n\<close> is the declared \<open>size\<close>, \<open>rd\<close> the reader.
\<close>

fun WriteFields :: "(string \<times> string) list \<Rightarrow> MultipartStreamer \<Rightarrow> heap
    \<Rightarrow> error option \<times> MultipartStreamer \<times> heap" where
  "WriteFields [] m h = (None, m, h)"
| "WriteFields ((key, v) # rest) m h =
     (case WriteField key v (bodyWriter m) h of
        (Some e, w', h') \<Rightarrow> (Some e, m\<lparr>bodyWriter := w'\<rparr>, h')
      | (None, w', h') \<Rightarrow> WriteFields rest (m\<lparr>bodyWriter := w'\<rparr>) h')"

definition WriteReader :: "string \<Rightarrow> string \<Rightarrow> 64 word \<Rightarrow> addr option \<Rightarrow> MultipartStreamer \<Rightarrow> heap
    \<Rightarrow> error option \<times> MultipartStreamer \<times> heap" where
  "WriteReader key filename n rd m h =
     (let m1 = m\<lparr>reader := rd, contentLength := n\<rparr> in
      case CreateFormFile key filename (bodyWriter m1) h of
        (err, w', h') \<Rightarrow> (err, m1\<lparr>bodyWriter := w'\<rparr>, h'))"

definition quoteEscaper :: "(char \<times> string) list" where
  "quoteEscaper = [(BS, [BS, BS]), (DQ, [BS, DQ])]"

definition escapeQuotes :: "string \<Rightarrow> string" where
  "escapeQuotes s = Replace quoteEscaper s"

text \<open>
  \<open>WriteReaderWithHeaders\<close>: \<open>headers\<close> is the map's entries in the order the \<open>range\<close>
  loop visits them. The type assertion \<open>headers["Content-Length"].(int64)\<close> panics
  unless the entry is there and holds an \<open>int64\<close>; \<open>m.reader\<close> has been assigned by then.
\<close>

definition WriteReaderWithHeaders :: "string \<Rightarrow> string \<Rightarrow> addr option \<Rightarrow> (string \<times> any) list
    \<Rightarrow> MultipartStreamer \<Rightarrow> heap \<Rightarrow> ret \<times> MultipartStreamer \<times> heap" where
  "WriteReaderWithHeaders key filename rd headers m h =
     (let m1 = m\<lparr>reader := rd\<rparr> in
      case map_of headers ''Content-Length'' of
        Some (AInt64 n) \<Rightarrow>
          (let m2 = m1\<lparr>contentLength := n\<rparr>;
               hdr = fold (\<lambda>(k, v). MIMEHeader_Set k (Sprint_v v)) headers
                       (MIMEHeader_Set ''Content-Disposition''
                          (''form-data; name='' @ [DQ] @ escapeQuotes key @ [DQ]
                            @ ''; filename='' @ [DQ] @ escapeQuotes filename @ [DQ]) [])
           in case CreatePart hdr (bodyWriter m2) h of
                (err, w', h') \<Rightarrow> (Ret err, m2\<lparr>bodyWriter := w'\<rparr>, h'))
      | _ \<Rightarrow> (Panics, m1, h))"

definition WriteReaderWithSize :: "string \<Rightarrow> string \<Rightarrow> 64 word \<Rightarrow> addr option
    \<Rightarrow> MultipartStreamer \<Rightarrow> heap \<Rightarrow> ret \<times> MultipartStreamer \<times> heap" where
  "WriteReaderWithSize key filename n rd m h =
     WriteReaderWithHeaders key filename rd
       [(''Content-Type'', AString ''application/octet-stream''), (''Content-Length'', AInt64 n)]
       m h"

definition WriteFile :: "filesystem \<Rightarrow> string \<Rightarrow> string \<Rightarrow> MultipartStreamer \<Rightarrow> heap
    \<Rightarrow> error option \<times> MultipartStreamer \<times> heap" where
  "WriteFile fs key filename m h =
     (case os_Open fs filename h of
        (Inl e, h1) \<Rightarrow> (Some e, m, h1)
      | (Inr fh, h1) \<Rightarrow>
          (case file_Stat fh h1 of
             Inl e \<Rightarrow> (Some e, m, h1)
           | Inr n \<Rightarrow> WriteReader key (Base filename) (word_of_nat n) (Some fh) m h1))"

text \<open>
  \<open>WritePart\<close>: \<open>headers\<close> is the map's entries in the order the \<open>range\<close> loop visits
  them; \<open>data\<close> is copied into the body buffer at once.
\<close>

definition WritePart :: "string \<Rightarrow> addr option \<Rightarrow> (string \<times> string) list
    \<Rightarrow> MultipartStreamer \<Rightarrow> heap \<Rightarrow> ret \<times> MultipartStreamer \<times> heap" where
  "WritePart fieldname data headers m h =
     (let hdr = fold (\<lambda>(k, v). MIMEHeader_Set k v) headers
                  (MIMEHeader_Set ''Content-Disposition''
                     (''form-data; name='' @ [DQ] @ escapeQuotes fieldname @ [DQ]) [])
      in case CreatePart hdr (bodyWriter m) h of
           (Some e, w', h') \<Rightarrow> (Ret (Some e), m\<lparr>bodyWriter := w'\<rparr>, h')
         | (None, w', h') \<Rightarrow>
             (case io_Copy (dst w') data h' of (r, h'') \<Rightarrow> (r, m\<lparr>bodyWriter := w'\<rparr>, h'')))"

definition Boundary :: "MultipartStreamer \<Rightarrow> string" where
  "Boundary m = boundary (bodyWriter m)"

text \<open>
  \<open>Len\<close>: \<open>int64\<close> addition wraps around; the result is read with \<open>sint\<close>. \<open>None\<close> is the
  panic of \<open>Len\<close> on a nil buffer.
\<close>

definition Len :: "MultipartStreamer \<Rightarrow> heap \<Rightarrow> 64 word option" where
  "Len m h =
     (case (buf_Len (bodyBuffer m) h, buf_Len (closeBuffer m) h) of
        (Some bl, Some cl) \<Rightarrow> Some (contentLength m + word_of_nat bl + word_of_nat cl)
      | _ \<Rightarrow> None)"

text \<open>
  \<open>GetReader\<close>: the multiReader holds the two buffers of the composer themselves (not
  copies) and whatever \<open>m.reader\<close> is at this moment, nil included. \<open>ioutil.NopCloser\<close>
  adds a \<open>Close\<close> that does nothing and returns nil.
\<close>

datatype multiReader = MultiReader "addr option list"

datatype ReadCloser = NopCloser multiReader

definition GetReader :: "MultipartStreamer \<Rightarrow> ReadCloser" where
  "GetReader m = NopCloser (MultiReader [bodyBuffer m, reader m, closeBuffer m])"

text \<open>
  One \<open>Read(p)\<close> on the stream with \<open>len(p) = k\<close>: the bytes, the error or panic, the
  stream and the heap afterwards, and the calls made on the underlying objects.
\<close>

record reply =
  bytes :: string
  result :: ret
  stream_next :: ReadCloser
  heap_next :: heap
  calls_made :: "event list"

fun Read :: "nat \<Rightarrow> ReadCloser \<Rightarrow> heap \<Rightarrow> reply" where
  "Read k (NopCloser (MultiReader rs)) h =
     (case mr_Read k rs h of
        (out, r, rs', h', evs) \<Rightarrow>
          \<lparr>bytes = out, result = r, stream_next = NopCloser (MultiReader rs'),
           heap_next = h', calls_made = evs\<rparr>)"

fun Close :: "ReadCloser \<Rightarrow> heap \<Rightarrow> error option \<times> heap" where
  "Close (NopCloser r) h = (None, h)"

text \<open>
  Draining the stream: the consumer's read loop on the \<open>ReadCloser\<close>. The run records
  how the loop ended, the bytes received, the stream and the heap afterwards, and the
  calls made on the underlying objects.
\<close>

record run =
  ending :: outcome
  received :: string
  stream_after :: ReadCloser
  heap_after :: heap
  calls :: "event list"

fun Drain :: "(nat \<Rightarrow> nat) \<Rightarrow> ReadCloser \<Rightarrow> heap \<Rightarrow> run" where
  "Drain sz (NopCloser (MultiReader rs)) h =
     (case ReadAll sz 0 rs h of
        (oc, out, rs', h', evs) \<Rightarrow>
          \<lparr>ending = oc, received = out, stream_after = NopCloser (MultiReader rs'),
           heap_after = h', calls = evs\<rparr>)"

section \<open>Notions for stating the properties\<close>

text \<open>
  The bytes an object still has to deliver, whether it can be read at all (a closed file
  handle cannot), and whether it is a buffer.
\<close>

fun content :: "obj \<Rightarrow> string" where
  "content (Buffer b) = b"
| "content (Source bs caps eager) = bs"
| "content (File c off closed) = drop off c"

fun readable :: "obj \<Rightarrow> bool" where
  "readable (File c off closed) = (\<not> closed)"
| "readable ob = True"

fun is_Buffer :: "obj \<Rightarrow> bool" where
  "is_Buffer (Buffer b) = True"
| "is_Buffer ob = False"

text \<open>
  The parts of an event.
\<close>

definition ev_addr :: "event \<Rightarrow> addr" where "ev_addr e = fst e"

definition ev_bytes :: "event \<Rightarrow> string" where "ev_bytes e = fst (snd e)"

definition ev_err :: "event \<Rightarrow> error option" where "ev_err e = snd (snd e)"

text \<open>
  The calls \<open>evs\<close> are all on the object that \<open>p\<close> points to, they return the bytes
  \<open>bs\<close> in order, and the last of them, and only the last, answers \<open>io.EOF\<close>.
\<close>

definition reads_all :: "addr option \<Rightarrow> string \<Rightarrow> event list \<Rightarrow> bool" where
  "reads_all p bs evs =
     (evs \<noteq> [] \<and> list_all (\<lambda>e. Some (ev_addr e) = p) evs \<and> concat (map ev_bytes evs) = bs
      \<and> ev_err (last evs) = Some EOF \<and> list_all (\<lambda>e. ev_err e = None) (butlast evs))"

text \<open>
  \<open>buffer_at h p\<close>: the unread bytes of the buffer that \<open>p\<close> points to.
  \<open>source_at h p\<close>: the bytes that the reader \<open>p\<close> will deliver, when \<open>p\<close> is not nil
  and the object can be read (a file handle must be open).
\<close>

definition buffer_at :: "heap \<Rightarrow> addr option \<Rightarrow> string option" where
  "buffer_at h p =
     (case p of None \<Rightarrow> None
      | Some a \<Rightarrow> (case lookup h a of Some (Buffer b) \<Rightarrow> Some b | _ \<Rightarrow> None))"

definition source_at :: "heap \<Rightarrow> addr option \<Rightarrow> string option" where
  "source_at h p =
     (case p of None \<Rightarrow> None
      | Some a \<Rightarrow> (case lookup h a of
                    Some ob \<Rightarrow> (if readable ob then Some (content ob) else None)
                  | None \<Rightarrow> None))"

text \<open>
  The states a composer is in once \<open>New\<close> has returned: its two buffers exist and are
  different objects, the multipart writer writes to the body buffer, and the registered
  reader, which the caller supplied, is neither of the two private buffers.
\<close>

definition composer_ok :: "MultipartStreamer \<Rightarrow> heap \<Rightarrow> bool" where
  "composer_ok m h =
     (buffer_at h (bodyBuffer m) \<noteq> None \<and> buffer_at h (closeBuffer m) \<noteq> None
      \<and> bodyBuffer m \<noteq> closeBuffer m \<and> bodyBuffer m = Some (dst (bodyWriter m))
      \<and> reader m \<noteq> bodyBuffer m \<and> reader m \<noteq> closeBuffer m)"

text \<open>
  The bytes that \<open>CreatePart\<close> writes: the delimiter line, the header lines and the
  empty line.
\<close>

definition part_bytes :: "MIMEHeader \<Rightarrow> Writer \<Rightarrow> string" where
  "part_bytes hdr w =
     (if lastpart w then CRLF @ ''--'' @ boundary w @ CRLF else ''--'' @ boundary w @ CRLF)
       @ header_lines hdr @ CRLF"

text \<open>
  No call turns a buffer into another kind of object or removes an object:
  \<open>same_shape h h'\<close> says that \<open>h'\<close> has every object of \<open>h\<close>, of the same kind.
\<close>

definition same_shape :: "heap \<Rightarrow> heap \<Rightarrow> bool" where
  "same_shape h h' =
     (length h \<le> length h' \<and> (\<forall>a<length h. is_Buffer (h' ! a) = is_Buffer (h ! a)))"

subsection \<open>Build phases\<close>

text \<open>
  A build phase without a payload registration: \<open>WriteFields\<close> and \<open>WritePart\<close> calls in
  any order and number. The caller goes on after a returned error; a panic ends the
  phase.
\<close>

datatype call =
    CallWriteFields "(string \<times> string) list"
  | CallWritePart string "addr option" "(string \<times> string) list"

fun run_call :: "call \<Rightarrow> MultipartStreamer \<Rightarrow> heap \<Rightarrow> ret \<times> MultipartStreamer \<times> heap" where
  "run_call (CallWriteFields fs) m h =
     (case WriteFields fs m h of (e, m', h') \<Rightarrow> (Ret e, m', h'))"
| "run_call (CallWritePart fieldname data headers) m h = WritePart fieldname data headers m h"

fun run_calls :: "call list \<Rightarrow> MultipartStreamer \<Rightarrow> heap \<Rightarrow> ret \<times> MultipartStreamer \<times> heap" where
  "run_calls [] m h = (Ret None, m, h)"
| "run_calls (c # cs) m h =
     (case run_call c m h of
        (Panics, m', h') \<Rightarrow> (Panics, m', h')
      | (Ret e, m', h') \<Rightarrow> run_calls cs m' h')"

subsection \<open>Registering a payload\<close>

text \<open>
  The two ways to register a payload reader, with the length each one declares.
\<close>

datatype registration =
    ByWriteReader string string "64 word"
  | ByWriteReaderWithHeaders string string "(string \<times> any) list"

fun register :: "registration \<Rightarrow> addr option \<Rightarrow> MultipartStreamer \<Rightarrow> heap
    \<Rightarrow> ret \<times> MultipartStreamer \<times> heap" where
  "register (ByWriteReader key filename n) rd m h =
     (case WriteReader key filename n rd m h of (e, m', h') \<Rightarrow> (Ret e, m', h'))"
| "register (ByWriteReaderWithHeaders key filename headers) rd m h =
     WriteReaderWithHeaders key filename rd headers m h"

fun declared :: "registration \<Rightarrow> 64 word option" where
  "declared (ByWriteReader key filename n) = Some n"
| "declared (ByWriteReaderWithHeaders key filename headers) =
     (case map_of headers ''Content-Length'' of Some (AInt64 n) \<Rightarrow> Some n | _ \<Rightarrow> None)"

subsection \<open>Quoting of names\<close>



subsection \<open>Programs over the package\<close>

text \<open>
  What a caller can do with a composer: every exported method, and \<open>Read\<close> and \<open>Close\<close> on
  the streams that \<open>GetReader\<close> returned. \<open>DoRead i k\<close> is a \<open>Read\<close> with a slice of length
  \<open>k\<close> on stream number \<open>i\<close>, \<open>DoClose i\<close> a \<open>Close\<close> on it.
\<close>

datatype operation =
    DoWriteFields "(string \<times> string) list"
  | DoWritePart string "addr option" "(string \<times> string) list"
  | DoWriteReader string string "64 word" "addr option"
  | DoWriteReaderWithHeaders string string "addr option" "(string \<times> any) list"
  | DoWriteReaderWithSize string string "64 word" "addr option"
  | DoWriteFile string string
  | DoLen
  | DoBoundary
  | DoGetReader
  | DoRead nat nat
  | DoClose nat

text \<open>
  The state of such a program: the composer, the streams obtained so far, the heap.
  \<open>perform\<close> is one call. The program goes on whatever the call returned: after an
  error, and after a panic that it recovered from, in the state that the call had
  reached. \<open>Len\<close> and \<open>Boundary\<close> only read. A call on a stream that was never
  obtained is not a call at all and leaves the state as it is.
\<close>

type_synonym program_state = "MultipartStreamer \<times> ReadCloser list \<times> heap"

fun perform :: "filesystem \<Rightarrow> operation \<Rightarrow> program_state \<Rightarrow> program_state" where
  "perform fs (DoWriteFields kvs) (m, rcs, h) =
     (case WriteFields kvs m h of (e, m', h') \<Rightarrow> (m', rcs, h'))"
| "perform fs (DoWritePart fieldname data headers) (m, rcs, h) =
     (case WritePart fieldname data headers m h of (r, m', h') \<Rightarrow> (m', rcs, h'))"
| "perform fs (DoWriteReader key filename n rd) (m, rcs, h) =
     (case WriteReader key filename n rd m h of (e, m', h') \<Rightarrow> (m', rcs, h'))"
| "perform fs (DoWriteReaderWithHeaders key filename rd headers) (m, rcs, h) =
     (case WriteReaderWithHeaders key filename rd headers m h of (r, m', h') \<Rightarrow> (m', rcs, h'))"
| "perform fs (DoWriteReaderWithSize key filename n rd) (m, rcs, h) =
     (case WriteReaderWithSize key filename n rd m h of (r, m', h') \<Rightarrow> (m', rcs, h'))"
| "perform fs (DoWriteFile key filename) (m, rcs, h) =
     (case WriteFile fs key filename m h of (e, m', h') \<Rightarrow> (m', rcs, h'))"
| "perform fs DoLen (m, rcs, h) = (case Len m h of r \<Rightarrow> (m, rcs, h))"
| "perform fs DoBoundary (m, rcs, h) = (case Boundary m of b \<Rightarrow> (m, rcs, h))"
| "perform fs DoGetReader (m, rcs, h) = (m, rcs @ [GetReader m], h)"
| "perform fs (DoRead i k) (m, rcs, h) =
     (if i < length rcs
      then (case Read k (rcs ! i) h of r \<Rightarrow> (m, rcs[i := stream_next r], heap_next r))
      else (m, rcs, h))"
| "perform fs (DoClose i) (m, rcs, h) =
     (if i < length rcs then (case Close (rcs ! i) h of (e, h') \<Rightarrow> (m, rcs, h'))
      else (m, rcs, h))"

fun perform_all :: "filesystem \<Rightarrow> operation list \<Rightarrow> program_state \<Rightarrow> program_state" where
  "perform_all fs [] s = s"
| "perform_all fs (p # ps) s = perform_all fs ps (perform fs p s)"

definition heap_of :: "program_state \<Rightarrow> heap" where
  "heap_of s = snd (snd s)"

section \<open>Worked examples\<close>

text \<open>
  The scenario of the specification: boundary \<open>X\<close>, a field \<open>parameters\<close> with the value
  \<open>{"x":1}\<close>, and a payload registered with \<open>WriteReader("file", "file", 5, src)\<close>, where
  \<open>src\<close> is the only object of the caller on the heap; \<open>rnd\<close> is the boundary that
  \<open>New\<close> would draw. In \<open>upload\<close> the caller's source holds \<open>hello\<close>; it answers its
  first call with \<open>(0, nil)\<close>, then hands out at most two bytes, and returns the last
  bytes together with \<open>io.EOF\<close>.
\<close>

definition json_x1 :: string where
  "json_x1 = ''{'' @ [DQ] @ ''x'' @ [DQ] @ '':1}''"

definition upload_of :: "string \<Rightarrow> obj \<Rightarrow> MultipartStreamer \<times> heap" where
  "upload_of rnd src =
     (case New rnd [WithBoundary ''X''] [src] of (m0, h0) \<Rightarrow>
      case WriteFields [(''parameters'', json_x1)] m0 h0 of (e1, m1, h1) \<Rightarrow>
      case WriteReader ''file'' ''file'' 5 (Some 0) m1 h1 of (e2, m2, h2) \<Rightarrow> (m2, h2))"

definition upload :: "MultipartStreamer \<times> heap" where
  "upload = upload_of ''5f2a9c'' (Source ''hello'' [0, 2] True)"

definition upload_header :: string where
  "upload_header =
     ''--X'' @ CRLF
     @ ''Content-Disposition: form-data; name='' @ [DQ] @ ''parameters'' @ [DQ] @ CRLF
     @ CRLF @ json_x1 @ CRLF @ ''--X'' @ CRLF
     @ ''Content-Disposition: form-data; name='' @ [DQ] @ ''file'' @ [DQ]
     @ ''; filename='' @ [DQ] @ ''file'' @ [DQ] @ CRLF
     @ ''Content-Type: application/octet-stream'' @ CRLF
     @ CRLF"

definition upload_trailer :: string where
  "upload_trailer = CRLF @ ''--X--'' @ CRLF"

text \<open>The stream that the specification expects of the scenario.\<close>

definition expected_stream :: string where
  "expected_stream =
     ''--X'' @ CRLF
     @ ''Content-Disposition: form-data; name='' @ [DQ] @ ''parameters'' @ [DQ] @ CRLF
     @ CRLF @ json_x1 @ CRLF @ ''--X'' @ CRLF
     @ ''Content-Disposition: form-data; name='' @ [DQ] @ ''file'' @ [DQ]
     @ ''; filename='' @ [DQ] @ ''file'' @ [DQ] @ CRLF
     @ CRLF @ ''hello'' @ CRLF @ ''--X--'' @ CRLF"

text \<open>
  A build that registers no payload: two fields and a part copied from a buffer.
\<close>

definition fields_only :: "MultipartStreamer \<times> heap" where
  "fields_only =
     (case New ''5f2a9c'' (map WithBoundary [''X'']) [Buffer ''{}''] of
        (m0, h1) \<Rightarrow>
          snd (run_calls
                 [CallWriteFields [(''a'', ''1''), (''b'', ''2'')],
                  CallWritePart ''meta'' (Some 0) [(''Content-Type'', ''application/json'')]]
                 m0 h1))"

text \<open>Two registrations in a row, the first with \<open>WriteReader\<close>, the second with headers.\<close>

definition registered_twice :: "MultipartStreamer \<times> heap" where
  "registered_twice =
     (case New ''5f2a9c'' [WithBoundary ''X'']
             [Source ''first'' [] False, Source ''second!'' [3] True] of
        (m0, h0) \<Rightarrow>
          (case register (ByWriteReader ''file'' ''one.txt'' 5) (Some 0) m0 h0 of
             (r1, m1, h1) \<Rightarrow>
               snd (register (ByWriteReaderWithHeaders ''file'' ''two.txt''
                                [(''Content-Length'', AInt64 7)]) (Some 1) m1 h1)))"

text \<open>A composer that registered the file \<open>/tmp/a.bin\<close> with \<open>WriteFile\<close>.\<close>

definition file_upload :: "MultipartStreamer \<times> heap" where
  "file_upload =
     (case New ''5f2a9c'' [WithBoundary ''X''] [] of
        (m0, h0) \<Rightarrow>
          snd (WriteFile (map_of [(''/tmp/a.bin'', ''hello'')]) ''file'' ''/tmp/a.bin'' m0 h0))"

text \<open>
  A consumer of that composer that gives up in the middle of the file: it reads the part
  headers and three bytes of the file and closes the stream; the program then adds a
  field, asks for the length, obtains a second stream, reads from it and closes it.
\<close>

definition early_exit :: "operation list" where
  "early_exit =
     [DoGetReader, DoRead 0 200, DoRead 0 3, DoClose 0, DoWriteFields [(''a'', ''1'')], DoLen,
      DoGetReader, DoRead 1 15, DoClose 1]"




section \<open>Lemmas\<close>

subsection \<open>Reading and draining\<close>

lemma take_drop_min: "take k xs @ drop (min k (length xs)) xs = xs"
  by (cases "k \<le> length xs") (auto simp: min_def)

lemma obj_Read_content:
  "readable ob \<Longrightarrow> obj_Read (Suc k) ob = (out, err, ob') \<Longrightarrow> content ob = out @ content ob'"
proof (induction "Suc k" ob rule: obj_Read.induct)
  case (4 c off closed)
  have "take (Suc k) (drop off c) @ drop (off + min (Suc k) (length c - off)) c = drop off c"
    using take_drop_min [of "Suc k" "drop off c"] by (simp add: add.commute)
  with 4 show ?case
    by (auto split: if_splits)
qed (auto simp: Let_def split: if_splits list.splits)

lemma obj_Read_readable:
  assumes "readable ob" and "obj_Read (Suc k) ob = (out, err, ob')"
  shows "readable ob'"
    and "err = None \<or> err = Some EOF" and "err = Some EOF \<Longrightarrow> content ob' = []"
    and "is_Buffer ob \<Longrightarrow> is_Buffer ob'"
  using assms
  by (induction "Suc k" ob rule: obj_Read.induct;
      auto simp: Let_def split: if_splits list.splits)+

lemma lookup_update_same: "lookup h a = Some ob \<Longrightarrow> lookup (h[a := ob']) a = Some ob'"
  by (auto simp: lookup_def split: if_splits)

lemma lookup_update_other: "a \<noteq> b \<Longrightarrow> lookup (h[a := ob']) b = lookup h b"
  by (auto simp: lookup_def)

lemma ReadAll_Nil: "ReadAll sz i [] h = (Drained, [], [], h, [])"
  by (subst ReadAll.simps) simp

lemma ReadAll_nil_reader: "ReadAll sz i (None # rs) h = (Panicked, [], None # rs, h, [])"
  by (subst ReadAll.simps) simp

lemma reads_all_Cons:
  "reads_all (Some a) bs evs \<Longrightarrow> reads_all (Some a) (out @ bs) ((a, out, None) # evs)"
  by (auto simp: reads_all_def ev_addr_def ev_bytes_def ev_err_def)

lemma reads_all_single: "reads_all (Some a) out [(a, out, Some EOF)]"
  by (auto simp: reads_all_def ev_addr_def ev_bytes_def ev_err_def)

lemma ReadAll_head:
  assumes "lookup h a = Some ob" and "readable ob"
  shows "\<exists>j ob' evs.
           ReadAll sz i (Some a # rs) h =
             (case ReadAll sz j rs (h[a := ob']) of
                (oc, out2, rs2, h2, evs2) \<Rightarrow> (oc, content ob @ out2, rs2, h2, evs @ evs2))
           \<and> readable ob' \<and> content ob' = [] \<and> (is_Buffer ob \<longrightarrow> is_Buffer ob')
           \<and> reads_all (Some a) (content ob) evs"
  using assms
proof (induction "obj_weight ob" arbitrary: ob h i rule: less_induct)
  case less
  obtain out err ob1 where rd: "obj_Read (Suc (sz i)) ob = (out, err, ob1)"
    by (cases "obj_Read (Suc (sz i)) ob") auto
  note g = obj_Read_content [OF less.prems(2) rd] obj_Read_readable [OF less.prems(2) rd]
  note w = obj_Read_weight [OF rd]
  let ?h1 = "h[a := ob1]"
  have l1: "lookup ?h1 a = Some ob1"
    using less.prems(1) by (rule lookup_update_same)
  show ?case
  proof (cases "err = Some EOF")
    case False
    with g(3) have e: "err = None" by simp
    with w have lt: "obj_weight ob1 < obj_weight ob" by simp
    from less.hyps [OF lt l1 g(2), of "Suc i"]
    obtain j ob' evs where
      ih: "ReadAll sz (Suc i) (Some a # rs) ?h1 =
             (case ReadAll sz j rs (?h1[a := ob']) of
                (oc, out2, rs2, h2, evs2) \<Rightarrow> (oc, content ob1 @ out2, rs2, h2, evs @ evs2))"
      and props: "readable ob'" "content ob' = []" "is_Buffer ob1 \<longrightarrow> is_Buffer ob'"
         "reads_all (Some a) (content ob1) evs"
      by blast
    have step: "mr_Read (Suc (sz i)) (Some a # rs) h = (out, Ret None, Some a # rs, ?h1, [(a, out, None)])"
      using less.prems(1) rd e by simp
    have "ReadAll sz i (Some a # rs) h =
            (case ReadAll sz j rs (h[a := ob']) of
               (oc, out2, rs2, h2, evs2) \<Rightarrow> (oc, content ob @ out2, rs2, h2, ((a, out, None) # evs) @ evs2))"
      apply (subst ReadAll.simps)
      apply (simp only: step prod.case ret.case option.case ih)
      apply (simp add: g(1) split: prod.splits)
      done
    moreover have "reads_all (Some a) (content ob) ((a, out, None) # evs)"
      using props(4) g(1) by (simp add: reads_all_Cons)
    ultimately show ?thesis
      using props g(5) by blast
  next
    case True
    note c0 = g(4) [OF True]
    with g(1) have out: "out = content ob" by simp
    show ?thesis
    proof (cases "out = []")
      case False
      have step: "mr_Read (Suc (sz i)) (Some a # rs) h =
                    (out, Ret (if rs \<noteq> [] then None else Some EOF), rs, ?h1, [(a, out, Some EOF)])"
        using less.prems(1) rd True False by simp
      have "ReadAll sz i (Some a # rs) h =
            (case ReadAll sz (Suc i) rs ?h1 of
               (oc, out2, rs2, h2, evs2) \<Rightarrow> (oc, content ob @ out2, rs2, h2, [(a, out, Some EOF)] @ evs2))"
        apply (subst ReadAll.simps)
        apply (simp only: step)
        apply (cases "rs = []")
         apply (simp_all add: out ReadAll_Nil split: prod.splits)
        done
      moreover have "reads_all (Some a) (content ob) [(a, out, Some EOF)]"
        unfolding out [symmetric] by (rule reads_all_single)
      ultimately show ?thesis
        using g(2,5) c0 by blast
    next
      case empty: True
      have step: "mr_Read (Suc (sz i)) (Some a # rs) h =
                    (case mr_Read (Suc (sz i)) rs ?h1 of
                       (out2, r2, rs2, h2, evs) \<Rightarrow> (out2, r2, rs2, h2, (a, [], Some EOF) # evs))"
        using less.prems(1) rd True empty by simp
      have "ReadAll sz i (Some a # rs) h =
            (case ReadAll sz i rs ?h1 of
               (oc, out2, rs2, h2, evs2) \<Rightarrow> (oc, content ob @ out2, rs2, h2, [(a, out, Some EOF)] @ evs2))"
        apply (subst ReadAll.simps)
        apply (subst (2) ReadAll.simps)
        apply (simp only: step)
        apply (simp add: out [symmetric] empty split: prod.splits ret.splits option.splits)
        done
      moreover have "reads_all (Some a) (content ob) [(a, out, Some EOF)]"
        unfolding out [symmetric] by (rule reads_all_single)
      ultimately show ?thesis
        using g(2,5) c0 by blast
    qed
  qed
qed

lemma is_Buffer_empty: "is_Buffer ob \<Longrightarrow> content ob = [] \<Longrightarrow> ob = Buffer []"
  by (cases ob) auto

lemma ReadAll_three:
  assumes hb: "lookup h hb = Some (Buffer hdr)"
    and src: "lookup h src = Some ob" "readable ob"
    and cb: "lookup h cb = Some (Buffer trl)"
    and ne: "hb \<noteq> src" "hb \<noteq> cb" "src \<noteq> cb"
  shows "\<exists>ob' evh evp evt.
           ReadAll sz 0 [Some hb, Some src, Some cb] h =
             (Drained, hdr @ content ob @ trl, [],
              h[hb := Buffer [], src := ob', cb := Buffer []], evh @ evp @ evt)
           \<and> readable ob' \<and> content ob' = []
           \<and> reads_all (Some hb) hdr evh \<and> reads_all (Some src) (content ob) evp \<and> reads_all (Some cb) trl evt"
proof -
  from ReadAll_head [OF hb, of sz 0 "[Some src, Some cb]"]
  obtain j1 ob1 evh where
    r1: "ReadAll sz 0 [Some hb, Some src, Some cb] h =
           (case ReadAll sz j1 [Some src, Some cb] (h[hb := ob1]) of
              (oc, out2, rs2, h2, evs2) \<Rightarrow> (oc, hdr @ out2, rs2, h2, evh @ evs2))"
    and p1: "content ob1 = []" "is_Buffer ob1" "reads_all (Some hb) hdr evh"
    by auto
  have ob1: "ob1 = Buffer []"
    using p1 by (simp add: is_Buffer_empty)
  let ?h1 = "h[hb := Buffer []]"
  have src1: "lookup ?h1 src = Some ob"
    using src ne by (simp add: lookup_update_other)
  from ReadAll_head [OF src1 src(2), of sz j1 "[Some cb]"]
  obtain j2 ob2 evp where
    r2: "ReadAll sz j1 [Some src, Some cb] ?h1 =
           (case ReadAll sz j2 [Some cb] (?h1[src := ob2]) of
              (oc, out2, rs2, h2, evs2) \<Rightarrow> (oc, content ob @ out2, rs2, h2, evp @ evs2))"
    and p2: "readable ob2" "content ob2 = []" "reads_all (Some src) (content ob) evp"
    by auto
  let ?h2 = "?h1[src := ob2]"
  have cb2: "lookup ?h2 cb = Some (Buffer trl)"
    using cb ne by (simp add: lookup_update_other)
  from ReadAll_head [OF cb2, of sz j2 "[]"]
  obtain j3 ob3 evt where
    r3: "ReadAll sz j2 [Some cb] ?h2 =
           (case ReadAll sz j3 [] (?h2[cb := ob3]) of
              (oc, out2, rs2, h2, evs2) \<Rightarrow> (oc, trl @ out2, rs2, h2, evt @ evs2))"
    and p3: "content ob3 = []" "is_Buffer ob3" "reads_all (Some cb) trl evt"
    by auto
  have ob3: "ob3 = Buffer []"
    using p3 by (simp add: is_Buffer_empty)
  have "ReadAll sz 0 [Some hb, Some src, Some cb] h =
          (Drained, hdr @ content ob @ trl, [], ?h2[cb := Buffer []], evh @ evp @ evt)"
    by (simp add: r1 ob1 r2 r3 ob3 ReadAll_Nil)
  with p2 p1(3) p3(3) show ?thesis by blast
qed

lemma ReadAll_no_payload:
  assumes hb: "lookup h hb = Some (Buffer hdr)"
  shows "\<exists>evh. ReadAll sz 0 [Some hb, None, cbp] h =
           (Panicked, hdr, [None, cbp], h[hb := Buffer []], evh) \<and> reads_all (Some hb) hdr evh"
proof -
  from ReadAll_head [OF hb, of sz 0 "[None, cbp]"]
  obtain j1 ob1 evh where
    r1: "ReadAll sz 0 [Some hb, None, cbp] h =
           (case ReadAll sz j1 [None, cbp] (h[hb := ob1]) of
              (oc, out2, rs2, h2, evs2) \<Rightarrow> (oc, hdr @ out2, rs2, h2, evh @ evs2))"
    and p1: "content ob1 = []" "is_Buffer ob1" "reads_all (Some hb) hdr evh"
    by auto
  have ob1: "ob1 = Buffer []"
    using p1 by (simp add: is_Buffer_empty)
  have "ReadAll sz 0 [Some hb, None, cbp] h = (Panicked, hdr, [None, cbp], h[hb := Buffer []], evh)"
    by (simp add: r1 ob1 ReadAll_nil_reader)
  with p1(3) show ?thesis by blast
qed

subsection \<open>Buffers, lengths and drained composers\<close>

lemma buffer_at_Some:
  "buffer_at h p = Some b \<longleftrightarrow> (\<exists>a. p = Some a \<and> lookup h a = Some (Buffer b))"
  by (auto simp: buffer_at_def split: option.splits obj.splits)

lemma source_at_Some:
  "source_at h p = Some bs \<longleftrightarrow>
     (\<exists>a ob. p = Some a \<and> lookup h a = Some ob \<and> readable ob \<and> content ob = bs)"
  by (auto simp: source_at_def split: option.splits)

lemma buf_Write_Buffer:
  "lookup h a = Some (Buffer b) \<Longrightarrow> buf_Write a p h = h[a := Buffer (b @ p)]"
  by (simp add: buf_Write_def)

lemma buffer_at_update_same:
  "buffer_at h (Some a) = Some b \<Longrightarrow> buffer_at (h[a := Buffer b']) (Some a) = Some b'"
  by (auto simp: buffer_at_def lookup_def split: option.splits obj.splits if_splits)

lemma buffer_at_update_other:
  "p \<noteq> Some a \<Longrightarrow> buffer_at (h[a := ob]) p = buffer_at h p"
  by (cases p) (auto simp: buffer_at_def lookup_update_other)

lemma source_at_update_other:
  "p \<noteq> Some a \<Longrightarrow> source_at (h[a := ob]) p = source_at h p"
  by (cases p) (auto simp: source_at_def lookup_update_other)

text \<open>Appending to the body buffer: what every build call does to the heap.\<close>

lemma buf_Write_body:
  assumes "buffer_at h (Some a) = Some b"
  shows "buffer_at (buf_Write a p h) (Some a) = Some (b @ p)"
    and "q \<noteq> Some a \<Longrightarrow> buffer_at (buf_Write a p h) q = buffer_at h q"
    and "q \<noteq> Some a \<Longrightarrow> source_at (buf_Write a p h) q = source_at h q"
    and "length (buf_Write a p h) = length h"
  using assms
  by (auto simp: buffer_at_Some buf_Write_Buffer buffer_at_update_other source_at_update_other
        lookup_update_same)

lemma CreatePart_eq:
  "CreatePart hdr w h = (None, w\<lparr>lastpart := True\<rparr>, buf_Write (dst w) (part_bytes hdr w) h)"
  by (simp add: CreatePart_def part_bytes_def Let_def)

lemma sint_add3:
  fixes x :: "64 word"
  assumes "0 \<le> sint x" and "sint x + int a + int b < 2 ^ 63"
  shows "sint (x + word_of_nat a + word_of_nat b) = sint x + int a + int b"
proof -
  define k where "k = sint x + int a + int b"
  have eq: "x + word_of_nat a + word_of_nat b = (word_of_int k :: 64 word)"
    unfolding k_def by simp
  have "- (2 ^ 63) \<le> k" "k < 2 ^ 63"
    using assms unfolding k_def by auto
  then have "signed_take_bit 63 k = k"
    by (intro signed_take_bit_int_eq_self) auto
  then have "sint (word_of_int k :: 64 word) = k"
    by (simp only: sint_sbintrunc') simp
  then show ?thesis
    unfolding eq unfolding k_def .
qed

lemma Len_eq:
  assumes "buffer_at h (bodyBuffer m) = Some hdr" and "buffer_at h (closeBuffer m) = Some trl"
  shows "Len m h = Some (contentLength m + word_of_nat (length hdr) + word_of_nat (length trl))"
  using assms by (auto simp: Len_def buf_Len_def buffer_at_Some)

lemma Drain_GetReader:
  "Drain sz (GetReader m) h =
     (case ReadAll sz 0 [bodyBuffer m, reader m, closeBuffer m] h of
        (oc, out, rs', h', evs) \<Rightarrow>
          \<lparr>ending = oc, received = out, stream_after = NopCloser (MultiReader rs'),
           heap_after = h', calls = evs\<rparr>)"
  by (simp add: GetReader_def)

text \<open>
  Draining a composer with a registered reader that can be read: the run ends with
  \<open>io.EOF\<close>, delivers header, payload and trailer in this order, and leaves all three
  objects empty.
\<close>

lemma Drain_registered:
  assumes ok: "composer_ok m h"
    and hdr: "buffer_at h (bodyBuffer m) = Some hdr"
    and src: "source_at h (reader m) = Some payload"
    and trl: "buffer_at h (closeBuffer m) = Some trl"
  shows "\<exists>evh evp evt.
           ending (Drain sz (GetReader m) h) = Drained
           \<and> received (Drain sz (GetReader m) h) = hdr @ payload @ trl
           \<and> calls (Drain sz (GetReader m) h) = evh @ evp @ evt
           \<and> reads_all (bodyBuffer m) hdr evh
           \<and> reads_all (reader m) payload evp
           \<and> reads_all (closeBuffer m) trl evt
           \<and> buffer_at (heap_after (Drain sz (GetReader m) h)) (bodyBuffer m) = Some []
           \<and> source_at (heap_after (Drain sz (GetReader m) h)) (reader m) = Some []
           \<and> buffer_at (heap_after (Drain sz (GetReader m) h)) (closeBuffer m) = Some []
           \<and> (\<forall>q. q \<noteq> bodyBuffer m \<longrightarrow> q \<noteq> reader m \<longrightarrow> q \<noteq> closeBuffer m \<longrightarrow>
                  source_at (heap_after (Drain sz (GetReader m) h)) q = source_at h q)"
proof -
  from hdr obtain hb where hb: "bodyBuffer m = Some hb" "lookup h hb = Some (Buffer hdr)"
    by (auto simp: buffer_at_Some)
  from trl obtain cb where cb: "closeBuffer m = Some cb" "lookup h cb = Some (Buffer trl)"
    by (auto simp: buffer_at_Some)
  from src obtain a ob where a: "reader m = Some a" "lookup h a = Some ob" "readable ob"
      "content ob = payload"
    by (auto simp: source_at_Some)
  from ok hb cb a have ne: "hb \<noteq> a" "hb \<noteq> cb" "a \<noteq> cb"
    by (auto simp: composer_ok_def)
  from ReadAll_three [OF hb(2) a(2,3) cb(2) ne, of sz]
  obtain ob' evh evp evt where
    r: "ReadAll sz 0 [Some hb, Some a, Some cb] h =
          (Drained, hdr @ content ob @ trl, [],
           h[hb := Buffer [], a := ob', cb := Buffer []], evh @ evp @ evt)"
    and p: "readable ob'" "content ob' = []" "reads_all (Some hb) hdr evh"
       "reads_all (Some a) (content ob) evp" "reads_all (Some cb) trl evt"
    by blast
  let ?h' = "h[hb := Buffer [], a := ob', cb := Buffer []]"
  have len: "hb < length h" "a < length h" "cb < length h"
    using hb(2) a(2) cb(2) by (auto simp: lookup_def split: if_splits)
  have "lookup ?h' hb = Some (Buffer [])" "lookup ?h' a = Some ob'" "lookup ?h' cb = Some (Buffer [])"
    using len ne by (auto simp: lookup_def)
  then have after: "buffer_at ?h' (Some hb) = Some []" "source_at ?h' (Some a) = Some []"
      "buffer_at ?h' (Some cb) = Some []"
    using p(1,2) by (auto simp: buffer_at_def source_at_def)
  have frame: "source_at ?h' q = source_at h q"
    if "q \<noteq> Some hb" "q \<noteq> Some a" "q \<noteq> Some cb" for q
    using that by (simp add: source_at_update_other)
  show ?thesis
    using r p(3,4,5) after frame
    by (simp add: Drain_GetReader hb(1) a(1,4) cb(1)) blast
qed

text \<open>
  Draining a composer on which no reader was registered: after the header the
  multiReader calls \<open>Read\<close> on the nil reader and the program panics. The trailer buffer
  is never read.
\<close>

lemma Drain_unregistered:
  assumes hdr: "buffer_at h (bodyBuffer m) = Some hdr"
    and nil: "reader m = None"
    and ok: "composer_ok m h"
  shows "\<exists>evh.
           ending (Drain sz (GetReader m) h) = Panicked
           \<and> received (Drain sz (GetReader m) h) = hdr
           \<and> calls (Drain sz (GetReader m) h) = evh
           \<and> reads_all (bodyBuffer m) hdr evh
           \<and> buffer_at (heap_after (Drain sz (GetReader m) h)) (bodyBuffer m) = Some []
           \<and> buffer_at (heap_after (Drain sz (GetReader m) h)) (closeBuffer m)
               = buffer_at h (closeBuffer m)"
proof -
  from hdr obtain hb where hb: "bodyBuffer m = Some hb" "lookup h hb = Some (Buffer hdr)"
    by (auto simp: buffer_at_Some)
  from ReadAll_no_payload [OF hb(2), of sz "closeBuffer m"]
  obtain evh where
    r: "ReadAll sz 0 [Some hb, None, closeBuffer m] h =
          (Panicked, hdr, [None, closeBuffer m], h[hb := Buffer []], evh)"
    and p: "reads_all (Some hb) hdr evh"
    by blast
  have "buffer_at (h[hb := Buffer []]) (Some hb) = Some []"
    using hdr hb(1) by (simp add: buffer_at_update_same)
  moreover have "buffer_at (h[hb := Buffer []]) (closeBuffer m) = buffer_at h (closeBuffer m)"
    using ok hb(1) by (intro buffer_at_update_other) (auto simp: composer_ok_def)
  ultimately show ?thesis
    using r p by (simp add: Drain_GetReader hb(1) nil)
qed

subsection \<open>Every build call keeps the composer well formed\<close>

lemma same_shape_refl: "same_shape h h"
  by (simp add: same_shape_def)

lemma same_shape_length: "same_shape h h' \<Longrightarrow> length h \<le> length h'"
  by (simp add: same_shape_def)

lemma same_shape_nth:
  "same_shape h h' \<Longrightarrow> a < length h \<Longrightarrow> is_Buffer (h' ! a) = is_Buffer (h ! a)"
  by (simp add: same_shape_def)

lemma same_shape_trans:
  "same_shape h1 h2 \<Longrightarrow> same_shape h2 h3 \<Longrightarrow> same_shape h1 h3"
  unfolding same_shape_def by (meson le_trans less_le_trans)

lemma same_shape_update:
  "lookup h a = Some ob \<Longrightarrow> is_Buffer ob' = is_Buffer ob \<Longrightarrow> same_shape h (h[a := ob'])"
  by (auto simp: same_shape_def lookup_def nth_list_update split: if_splits)

lemma same_shape_alloc: "alloc ob h = (a, h') \<Longrightarrow> same_shape h h'"
  by (auto simp: same_shape_def alloc_def nth_append)

lemma same_shape_buf_Write: "same_shape h (buf_Write a p h)"
proof (cases "lookup h a")
  case None
  then show ?thesis by (simp add: buf_Write_def same_shape_refl)
next
  case (Some ob)
  then show ?thesis
    by (cases ob) (simp_all add: buf_Write_def same_shape_refl same_shape_update)
qed

lemma obj_Read_kind: "obj_Read k ob = (out, err, ob') \<Longrightarrow> is_Buffer ob' = is_Buffer ob"
  by (induction k ob rule: obj_Read.induct) (auto simp: Let_def split: if_splits)

lemma mr_Read_shape: "mr_Read k rs h = (out, r, rs', h', evs) \<Longrightarrow> same_shape h h'"
proof (induction rs arbitrary: h out r rs' h' evs)
  case Nil
  then show ?case by (simp add: same_shape_refl)
next
  case (Cons x rs)
  show ?case
  proof (cases x)
    case None
    with Cons.prems show ?thesis by (simp add: same_shape_refl)
  next
    case (Some a)
    show ?thesis
    proof (cases "lookup h a")
      case None
      with Cons.prems Some show ?thesis by (simp add: same_shape_refl)
    next
      case (Some ob)
      obtain o1 e1 ob1 where rd: "obj_Read k ob = (o1, e1, ob1)"
        by (cases "obj_Read k ob") auto
      have s1: "same_shape h (h[a := ob1])"
        using Some obj_Read_kind [OF rd] by (intro same_shape_update) auto
      show ?thesis
      proof (cases "o1 \<noteq> [] \<or> e1 \<noteq> Some EOF")
        case True
        with Cons.prems \<open>x = Some a\<close> Some rd have "h' = h[a := ob1]"
          by (auto split: if_splits)
        with s1 show ?thesis by simp
      next
        case False
        with Cons.prems \<open>x = Some a\<close> Some rd
        obtain evs2 where "mr_Read k rs (h[a := ob1]) = (out, r, rs', h', evs2)"
          by (auto split: prod.splits)
        from Cons.IH [OF this] s1 show ?thesis
          by (rule same_shape_trans [rotated])
      qed
    qed
  qed
qed

lemma ReadAll_shape: "ReadAll sz i rs h = (oc, out, rs', h', evs) \<Longrightarrow> same_shape h h'"
proof (induction sz i rs h arbitrary: oc out rs' h' evs rule: ReadAll.induct)
  case (1 sz i rs h)
  obtain o1 r1 rs1 h1 ev1 where m: "mr_Read (Suc (sz i)) rs h = (o1, r1, rs1, h1, ev1)"
    by (cases "mr_Read (Suc (sz i)) rs h") auto
  note s1 = mr_Read_shape [OF m]
  show ?case
  proof (cases "r1 = Ret None")
    case True
    obtain oc2 o2 rs2 h2 ev2 where r: "ReadAll sz (Suc i) rs1 h1 = (oc2, o2, rs2, h2, ev2)"
      by (cases "ReadAll sz (Suc i) rs1 h1") auto
    have "same_shape h1 h2"
      by (rule "1.IH" [OF m [symmetric] refl True refl refl refl r])
    moreover have "h' = h2"
      using "1.prems" m True r by (subst (asm) ReadAll.simps) simp
    ultimately show ?thesis
      using s1 same_shape_trans by blast
  next
    case False
    then have "h' = h1"
      using "1.prems" m by (subst (asm) ReadAll.simps) (auto split: ret.splits option.splits)
    with s1 show ?thesis by simp
  qed
qed

lemma buffer_at_shape:
  assumes "same_shape h h'" and "buffer_at h p \<noteq> None"
  shows "buffer_at h' p \<noteq> None"
proof -
  from assms(2) obtain a b where a: "p = Some a" "lookup h a = Some (Buffer b)"
    by (auto simp: buffer_at_Some)
  then have lt: "a < length h" and "is_Buffer (h ! a)"
    by (auto simp: lookup_def split: if_splits)
  with same_shape_nth [OF assms(1) lt] have "is_Buffer (h' ! a)"
    by simp
  moreover have "a < length h'"
    using lt same_shape_length [OF assms(1)] by simp
  ultimately show ?thesis
    using a(1) by (cases "h' ! a") (auto simp: buffer_at_def lookup_def)
qed

text \<open>
  A call that leaves the composer's pointers alone, keeps the shape of the heap, and
  registers no private buffer as the reader, keeps the composer well formed.
\<close>

lemma composer_ok_kept:
  assumes "composer_ok m h" and "same_shape h h'"
    and "bodyBuffer m' = bodyBuffer m" and "closeBuffer m' = closeBuffer m"
    and "dst (bodyWriter m') = dst (bodyWriter m)"
    and "reader m' \<noteq> bodyBuffer m" and "reader m' \<noteq> closeBuffer m"
  shows "composer_ok m' h'"
  using assms buffer_at_shape [OF assms(2)]
  by (auto simp: composer_ok_def)

lemma WriteReaderWithHeaders_needs_int64_aux:
  "if (\<exists>n. map_of headers ''Content-Length'' = Some (AInt64 n))
   then fst (WriteReaderWithHeaders key filename rd headers m h) = Ret None
   else WriteReaderWithHeaders key filename rd headers m h = (Panics, m\<lparr>reader := rd\<rparr>, h)"
  by (auto simp: WriteReaderWithHeaders_def CreatePart_eq Let_def
        split: option.splits any.splits)

lemma CreatePart_shape:
  "CreatePart hdr w h = (e, w', h') \<Longrightarrow> same_shape h h' \<and> dst w' = dst w \<and> e = None"
  by (auto simp: CreatePart_eq same_shape_buf_Write)

lemma WriteField_shape:
  "WriteField k v w h = (e, w', h') \<Longrightarrow> same_shape h h' \<and> dst w' = dst w \<and> e = None"
  using same_shape_trans [OF same_shape_buf_Write same_shape_buf_Write]
  by (auto simp: WriteField_def CreateFormField_def CreatePart_eq)

lemma WriteFields_ok:
  "composer_ok m h \<Longrightarrow> WriteFields fs m h = (e, m', h') \<Longrightarrow>
     composer_ok m' h' \<and> e = None \<and> reader m' = reader m \<and> contentLength m' = contentLength m"
proof (induction fs arbitrary: m h)
  case Nil
  then show ?case by simp
next
  case (Cons kv fs)
  obtain k v where kv: "kv = (k, v)" by (cases kv)
  obtain e1 w1 h1 where wf: "WriteField k v (bodyWriter m) h = (e1, w1, h1)"
    by (cases "WriteField k v (bodyWriter m) h") auto
  note s = WriteField_shape [OF wf]
  have ok1: "composer_ok (m\<lparr>bodyWriter := w1\<rparr>) h1"
    by (rule composer_ok_kept [OF Cons.prems(1)])
       (use s Cons.prems(1) in \<open>auto simp: composer_ok_def\<close>)
  from Cons.prems(2) kv wf s
  have "WriteFields fs (m\<lparr>bodyWriter := w1\<rparr>) h1 = (e, m', h')"
    by simp
  from Cons.IH [OF ok1 this] show ?case by simp
qed

lemma WriteReader_ok:
  assumes "composer_ok m h" and "WriteReader key filename n rd m h = (e, m', h')"
    and "rd \<noteq> bodyBuffer m" and "rd \<noteq> closeBuffer m"
  shows "composer_ok m' h' \<and> e = None \<and> reader m' = rd \<and> contentLength m' = n"
proof -
  obtain e1 w1 h1 where c: "CreateFormFile key filename (bodyWriter m) h = (e1, w1, h1)"
    by (cases "CreateFormFile key filename (bodyWriter m) h") auto
  then have s: "same_shape h h1" "dst w1 = dst (bodyWriter m)" "e1 = None"
    by (auto simp: CreateFormFile_def dest: CreatePart_shape)
  have m': "m' = m\<lparr>bodyWriter := w1, reader := rd, contentLength := n\<rparr>" "h' = h1" "e = e1"
    using assms(2) c by (auto simp: WriteReader_def)
  have "composer_ok m' h'"
    unfolding m' by (rule composer_ok_kept [OF assms(1)]) (use assms(3,4) s in auto)
  then show ?thesis
    using m' s by simp
qed

lemma WriteReaderWithHeaders_ok:
  assumes "composer_ok m h" and "WriteReaderWithHeaders key filename rd headers m h = (r, m', h')"
    and "rd \<noteq> bodyBuffer m" and "rd \<noteq> closeBuffer m"
  shows "composer_ok m' h' \<and> reader m' = rd
         \<and> (r = Panics \<or> r = Ret None \<and> map_of headers ''Content-Length'' = Some (AInt64 (contentLength m')))"
proof (cases "\<exists>n. map_of headers ''Content-Length'' = Some (AInt64 n)")
  case False
  then have "WriteReaderWithHeaders key filename rd headers m h = (Panics, m\<lparr>reader := rd\<rparr>, h)"
    using WriteReaderWithHeaders_needs_int64_aux [of headers key filename rd m h] by simp
  with assms(2) have m': "m' = m\<lparr>reader := rd\<rparr>" "h' = h" "r = Panics"
    by auto
  have "composer_ok m' h'"
    unfolding m' by (rule composer_ok_kept [OF assms(1)]) (use assms(3,4) in \<open>auto simp: same_shape_refl\<close>)
  then show ?thesis
    using m' by simp
next
  case True
  then obtain n where n: "map_of headers ''Content-Length'' = Some (AInt64 n)"
    by blast
  then obtain hdr where
    m': "m' = m\<lparr>bodyWriter := (bodyWriter m)\<lparr>lastpart := True\<rparr>, reader := rd, contentLength := n\<rparr>"
      "h' = buf_Write (dst (bodyWriter m)) (part_bytes hdr (bodyWriter m)) h" "r = Ret None"
    using assms(2) by (auto simp: WriteReaderWithHeaders_def CreatePart_eq Let_def)
  have "composer_ok m' h'"
    unfolding m' by (rule composer_ok_kept [OF assms(1)]) (use assms(3,4) in \<open>auto simp: same_shape_buf_Write\<close>)
  then show ?thesis
    using m' n by simp
qed

lemma WritePart_ok:
  assumes "composer_ok m h" and "WritePart fieldname data headers m h = (r, m', h')"
  shows "composer_ok m' h' \<and> reader m' = reader m \<and> contentLength m' = contentLength m"
proof -
  define w1 where "w1 = (bodyWriter m)\<lparr>lastpart := True\<rparr>"
  obtain hdr h1 where c: "CreatePart hdr (bodyWriter m) h = (None, w1, h1)"
      and r1: "io_Copy (dst w1) data h1 = (r, h')" and m': "m' = m\<lparr>bodyWriter := w1\<rparr>"
    using assms(2) unfolding w1_def
    by (auto simp: WritePart_def Let_def CreatePart_eq split: prod.splits)
  have s1: "same_shape h h1"
    using c by (auto dest: CreatePart_shape)
  obtain oc out rs2 h2 evs where ra: "ReadAll (\<lambda>i. 32767) 0 [data] h1 = (oc, out, rs2, h2, evs)"
    by (cases "ReadAll (\<lambda>i. 32767) 0 [data] h1") auto
  have "h' = buf_Write (dst w1) out h2"
    using r1 ra by (simp add: io_Copy_def)
  then have "same_shape h1 h'"
    using ReadAll_shape [OF ra] same_shape_buf_Write same_shape_trans by blast
  with s1 have "same_shape h h'"
    by (rule same_shape_trans)
  then have "composer_ok m' h'"
    unfolding m' by (rule composer_ok_kept [OF assms(1)]) (use assms(1) in \<open>auto simp: composer_ok_def w1_def\<close>)
  then show ?thesis
    by (simp add: m')
qed

lemma WithBoundary_apply:
  "WithBoundary b m h = (m\<lparr>bodyWriter := snd (SetBoundary b (bodyWriter m))\<rparr>, h)"
  by (simp add: WithBoundary_def)

lemma fold_WithBoundary:
  "fold (\<lambda>fopt (m, hp). fopt m hp) (map WithBoundary bs) (m, h) = (m', h') \<Longrightarrow>
     h' = h \<and> bodyBuffer m' = bodyBuffer m \<and> closeBuffer m' = closeBuffer m
     \<and> reader m' = reader m \<and> contentLength m' = contentLength m
     \<and> dst (bodyWriter m') = dst (bodyWriter m)"
proof (induction bs arbitrary: m)
  case Nil
  then show ?case by simp
next
  case (Cons b bs)
  let ?m1 = "m\<lparr>bodyWriter := snd (SetBoundary b (bodyWriter m))\<rparr>"
  have "fold (\<lambda>fopt (m, hp). fopt m hp) (map WithBoundary (b # bs)) (m, h)
          = fold (\<lambda>fopt (m, hp). fopt m hp) (map WithBoundary bs) (WithBoundary b m h)"
    by simp
  also have "WithBoundary b m h = (?m1, h)"
    by (rule WithBoundary_apply)
  finally have "fold (\<lambda>fopt (m, hp). fopt m hp) (map WithBoundary bs) (?m1, h) = (m', h')"
    using Cons.prems by simp
  from Cons.IH [OF this] show ?case
    by (simp add: SetBoundary_def)
qed

lemma New_ok:
  assumes "New rnd (map WithBoundary bs) h = (m, h')"
  shows "composer_ok m h'" and "reader m = None" and "contentLength m = 0"
    and "buffer_at h' (bodyBuffer m) = Some []"
    and "buffer_at h' (closeBuffer m) = Some (CRLF @ ''--'' @ Boundary m @ ''--'' @ CRLF)"
    and "ContentType m = ''multipart/form-data; boundary='' @ Boundary m"
    and "same_shape h h'"
proof -
  let ?m0 = "\<lparr>ContentType = [], bodyBuffer = Some (length h),
               bodyWriter = NewWriter rnd (length h),
               closeBuffer = None, reader = None, contentLength = 0\<rparr>"
  obtain m1 h1 where f: "fold (\<lambda>fopt (m, hp). fopt m hp) (map WithBoundary bs)
                           (?m0, h @ [Buffer []]) = (m1, h1)"
    by (cases "fold (\<lambda>fopt (m, hp). fopt m hp) (map WithBoundary bs) (?m0, h @ [Buffer []])") auto
  note p = fold_WithBoundary [OF f]
  have m: "m = m1\<lparr>ContentType := ''multipart/form-data; boundary='' @ boundary (bodyWriter m1),
                  closeBuffer := Some (Suc (length h))\<rparr>"
    and h': "h' = h @ [Buffer [], Buffer (CRLF @ ''--'' @ boundary (bodyWriter m1) @ ''--'' @ CRLF)]"
    using assms f p by (auto simp: New_def alloc_def Let_def)
  show "composer_ok m h'"
    using p by (simp add: m h' composer_ok_def buffer_at_def lookup_def nth_append NewWriter_def)
  show "reader m = None" "contentLength m = 0"
    using p by (simp_all add: m)
  show "buffer_at h' (bodyBuffer m) = Some []"
    using p by (simp add: m h' buffer_at_def lookup_def nth_append)
  show "buffer_at h' (closeBuffer m) = Some (CRLF @ ''--'' @ Boundary m @ ''--'' @ CRLF)"
    by (simp add: m h' buffer_at_def lookup_def nth_append Boundary_def)
  show "ContentType m = ''multipart/form-data; boundary='' @ Boundary m"
    by (simp add: m Boundary_def)
  show "same_shape h h'"
    by (simp add: h' same_shape_def nth_append)
qed

lemma New_heap:
  assumes "New rnd (map WithBoundary bs) h = (m, h')"
  shows "bodyBuffer m = Some (length h)" and "closeBuffer m = Some (Suc (length h))"
    and "a < length h \<Longrightarrow> lookup h' a = lookup h a"
proof -
  let ?m0 = "\<lparr>ContentType = [], bodyBuffer = Some (length h),
               bodyWriter = NewWriter rnd (length h),
               closeBuffer = None, reader = None, contentLength = 0\<rparr>"
  obtain m1 h1 where f: "fold (\<lambda>fopt (m, hp). fopt m hp) (map WithBoundary bs)
                           (?m0, h @ [Buffer []]) = (m1, h1)"
    by (cases "fold (\<lambda>fopt (m, hp). fopt m hp) (map WithBoundary bs) (?m0, h @ [Buffer []])") auto
  note p = fold_WithBoundary [OF f]
  have m: "m = m1\<lparr>ContentType := ''multipart/form-data; boundary='' @ boundary (bodyWriter m1),
                  closeBuffer := Some (Suc (length h))\<rparr>"
    and h': "h' = h @ [Buffer [], Buffer (CRLF @ ''--'' @ boundary (bodyWriter m1) @ ''--'' @ CRLF)]"
    using assms f p by (auto simp: New_def alloc_def Let_def)
  show "bodyBuffer m = Some (length h)" "closeBuffer m = Some (Suc (length h))"
    using p by (simp_all add: m)
  show "lookup h' a = lookup h a" if "a < length h"
    using that by (simp add: h' lookup_def nth_append)
qed

lemma WriteFile_missing:
  "fs filename = None \<Longrightarrow> WriteFile fs key filename m h = (Some ErrNotExist, m, h)"
  by (simp add: WriteFile_def os_Open_def)

lemma WriteFile_found:
  "fs filename = Some c \<Longrightarrow>
     WriteFile fs key filename m h =
       WriteReader key (Base filename) (word_of_nat (length c)) (Some (length h)) m
         (h @ [File c 0 False])"
  by (simp add: WriteFile_def os_Open_def alloc_def file_Stat_def lookup_def)

lemma WriteReader_heap:
  "WriteReader key filename n rd m h = (e, m', h') \<Longrightarrow>
     \<exists>p. h' = buf_Write (dst (bodyWriter m)) p h"
  by (auto simp: WriteReader_def CreateFormFile_def CreatePart_eq)

lemma WriteFile_ok:
  assumes "composer_ok m h" and "WriteFile fs key filename m h = (e, m', h')"
  shows "composer_ok m' h'"
    and "e = None \<Longrightarrow>
           \<exists>c. fs filename = Some c \<and> reader m' = Some (length h)
               \<and> lookup h' (length h) = Some (File c 0 False)
               \<and> contentLength m' = word_of_nat (length c)"
    and "e \<noteq> None \<Longrightarrow> fs filename = None \<and> m' = m \<and> h' = h"
proof -
  from assms(1) obtain bb cb where p: "bodyBuffer m = Some bb" "closeBuffer m = Some cb"
      "bb < length h" "cb < length h" "dst (bodyWriter m) = bb"
    by (auto simp: composer_ok_def buffer_at_def lookup_def split: option.splits if_splits)
  have found: "composer_ok m' h' \<and> e = None \<and> reader m' = Some (length h)
                 \<and> lookup h' (length h) = Some (File c 0 False)
                 \<and> contentLength m' = word_of_nat (length c)"
    if c: "fs filename = Some c" for c
  proof -
    let ?h1 = "h @ [File c 0 False]"
    have w: "WriteReader key (Base filename) (word_of_nat (length c)) (Some (length h)) m ?h1
               = (e, m', h')"
      using assms(2) c by (simp add: WriteFile_found)
    have ok1: "composer_ok m ?h1"
      by (rule composer_ok_kept [OF assms(1)])
         (use assms(1) in \<open>auto simp: same_shape_def nth_append composer_ok_def\<close>)
    have r: "composer_ok m' h' \<and> e = None \<and> reader m' = Some (length h)
               \<and> contentLength m' = word_of_nat (length c)"
      by (rule WriteReader_ok [OF ok1 w]) (use p in auto)
    from WriteReader_heap [OF w] obtain q where "h' = buf_Write bb q ?h1"
      using p by auto
    then have "lookup h' (length h) = Some (File c 0 False)"
      using p by (auto simp: buf_Write_def lookup_def nth_append nth_list_update
                    split: option.splits obj.splits)
    with r show ?thesis by simp
  qed
  show "composer_ok m' h'"
  proof (cases "fs filename")
    case None
    with assms show ?thesis by (simp add: WriteFile_missing)
  next
    case (Some c)
    from found [OF this] show ?thesis by simp
  qed
  show "\<exists>c. fs filename = Some c \<and> reader m' = Some (length h)
               \<and> lookup h' (length h) = Some (File c 0 False)
               \<and> contentLength m' = word_of_nat (length c)" if "e = None"
  proof (cases "fs filename")
    case None
    with assms that show ?thesis by (simp add: WriteFile_missing)
  next
    case (Some c)
    from found [OF this] Some show ?thesis by simp
  qed
  show "fs filename = None \<and> m' = m \<and> h' = h" if "e \<noteq> None"
  proof (cases "fs filename")
    case None
    with assms show ?thesis by (simp add: WriteFile_missing)
  next
    case (Some c)
    from found [OF this] that show ?thesis by simp
  qed
qed

lemma run_call_ok:
  assumes "composer_ok m h" and "run_call c m h = (r, m', h')"
  shows "composer_ok m' h' \<and> reader m' = reader m \<and> contentLength m' = contentLength m"
proof (cases c)
  case (CallWriteFields fs)
  with assms show ?thesis
    by (auto split: prod.splits dest: WriteFields_ok)
next
  case (CallWritePart fieldname data headers)
  with assms show ?thesis
    by (auto dest: WritePart_ok)
qed

lemma run_calls_ok:
  "composer_ok m h \<Longrightarrow> run_calls cs m h = (r, m', h') \<Longrightarrow>
     composer_ok m' h' \<and> reader m' = reader m \<and> contentLength m' = contentLength m"
proof (induction cs arbitrary: m h)
  case Nil
  then show ?case by simp
next
  case (Cons c cs)
  obtain r1 m1 h1 where c: "run_call c m h = (r1, m1, h1)"
    by (cases "run_call c m h") auto
  note ok1 = run_call_ok [OF Cons.prems(1) c]
  show ?case
  proof (cases r1)
    case Panics
    with Cons.prems(2) c ok1 show ?thesis by simp
  next
    case (Ret e)
    with Cons.prems(2) c have "run_calls cs m1 h1 = (r, m', h')" by simp
    from Cons.IH [OF _ this] ok1 show ?thesis by simp
  qed
qed

lemma WriteReader_frame:
  assumes "composer_ok m h" and "WriteReader key filename n rd m h = (e, m', h')"
    and "q \<noteq> bodyBuffer m"
  shows "source_at h' q = source_at h q" and "buffer_at h' q = buffer_at h q"
proof -
  from assms(1) obtain old where old: "buffer_at h (Some (dst (bodyWriter m))) = Some old"
      "bodyBuffer m = Some (dst (bodyWriter m))"
    by (auto simp: composer_ok_def)
  from WriteReader_heap [OF assms(2)] obtain p where h': "h' = buf_Write (dst (bodyWriter m)) p h"
    by blast
  show "source_at h' q = source_at h q" "buffer_at h' q = buffer_at h q"
    unfolding h' using buf_Write_body(2,3) [OF old(1)] assms(3) old(2) by auto
qed

lemma WriteReaderWithHeaders_frame:
  assumes "composer_ok m h" and "WriteReaderWithHeaders key filename rd headers m h = (r, m', h')"
    and "q \<noteq> bodyBuffer m"
  shows "source_at h' q = source_at h q" and "buffer_at h' q = buffer_at h q"
proof -
  from assms(1) obtain old where old: "buffer_at h (Some (dst (bodyWriter m))) = Some old"
      "bodyBuffer m = Some (dst (bodyWriter m))"
    by (auto simp: composer_ok_def)
  from assms(2) have "h' = h \<or> (\<exists>p. h' = buf_Write (dst (bodyWriter m)) p h)"
    by (auto simp: WriteReaderWithHeaders_def CreatePart_eq Let_def
          split: option.splits any.splits)
  then show "source_at h' q = source_at h q" "buffer_at h' q = buffer_at h q"
    using buf_Write_body(2,3) [OF old(1)] assms(3) old(2) by auto
qed

lemma WriteReader_ptrs:
  "WriteReader key filename n rd m h = (e, m', h') \<Longrightarrow>
     bodyBuffer m' = bodyBuffer m \<and> closeBuffer m' = closeBuffer m"
  by (auto simp: WriteReader_def split: prod.splits)

lemma WriteReaderWithHeaders_ptrs:
  "WriteReaderWithHeaders key filename rd headers m h = (r, m', h') \<Longrightarrow>
     bodyBuffer m' = bodyBuffer m \<and> closeBuffer m' = closeBuffer m"
  by (auto simp: WriteReaderWithHeaders_def CreatePart_eq Let_def
        split: option.splits any.splits)

lemma register_ok:
  assumes "composer_ok m h" and "register g rd m h = (Ret e, m', h')"
    and "rd \<noteq> bodyBuffer m" and "rd \<noteq> closeBuffer m"
  shows "composer_ok m' h'" and "reader m' = rd" and "declared g = Some (contentLength m')"
    and "bodyBuffer m' = bodyBuffer m" and "closeBuffer m' = closeBuffer m"
    and "q \<noteq> bodyBuffer m \<Longrightarrow> source_at h' q = source_at h q"
proof -
  have "composer_ok m' h' \<and> reader m' = rd \<and> declared g = Some (contentLength m')
        \<and> bodyBuffer m' = bodyBuffer m \<and> closeBuffer m' = closeBuffer m
        \<and> (q \<noteq> bodyBuffer m \<longrightarrow> source_at h' q = source_at h q)"
  proof (cases g)
    case (ByWriteReader key filename n)
    with assms(2) obtain e1 where w: "WriteReader key filename n rd m h = (e1, m', h')"
      by (auto split: prod.splits)
    from WriteReader_ok [OF assms(1) w assms(3,4)] WriteReader_ptrs [OF w]
      WriteReader_frame(1) [OF assms(1) w, of q] ByWriteReader
    show ?thesis by simp
  next
    case (ByWriteReaderWithHeaders key filename headers)
    with assms(2) have w: "WriteReaderWithHeaders key filename rd headers m h = (Ret e, m', h')"
      by simp
    from WriteReaderWithHeaders_ok [OF assms(1) w assms(3,4)] WriteReaderWithHeaders_ptrs [OF w]
      WriteReaderWithHeaders_frame(1) [OF assms(1) w, of q] ByWriteReaderWithHeaders
    show ?thesis by auto
  qed
  then show "composer_ok m' h'" and "reader m' = rd" and "declared g = Some (contentLength m')"
    and "bodyBuffer m' = bodyBuffer m" and "closeBuffer m' = closeBuffer m"
    and "q \<noteq> bodyBuffer m \<Longrightarrow> source_at h' q = source_at h q"
    by auto
qed

subsection \<open>Copying a buffer\<close>

text \<open>
  When \<open>data\<close> is a \<open>bytes.Buffer\<close>, \<open>io.Copy\<close> moves all its unread bytes, whatever the
  size of the requests. The second lemma is also the equation by which \<open>io_Copy\<close> is
  evaluated.
\<close>

lemma io_Copy_Buffer:
  assumes "lookup h a = Some (Buffer b)"
  shows "io_Copy d (Some a) h = (Ret None, buf_Write d b (h[a := Buffer []]))"
proof -
  from ReadAll_head [OF assms, of "\<lambda>i. 32767" 0 "[]"]
  obtain j ob' evs where
    r: "ReadAll (\<lambda>i. 32767) 0 [Some a] h =
          (case ReadAll (\<lambda>i. 32767) j [] (h[a := ob']) of
             (oc, out2, rs2, h2, evs2) \<Rightarrow> (oc, b @ out2, rs2, h2, evs @ evs2))"
    and p: "content ob' = []" "is_Buffer ob'"
    by auto
  have "ob' = Buffer []"
    using p by (simp add: is_Buffer_empty)
  with r show ?thesis
    by (simp add: io_Copy_def ReadAll_Nil)
qed

lemma io_Copy_code [code]:
  "io_Copy d src h =
     (case src of
        None \<Rightarrow> (Panics, buf_Write d [] h)
      | Some a \<Rightarrow>
         (case lookup h a of
            None \<Rightarrow> (Panics, buf_Write d [] h)
          | Some (Buffer b) \<Rightarrow> (Ret None, buf_Write d b (h[a := Buffer []]))
          | Some ob \<Rightarrow>
              (case ReadAll (\<lambda>i. 32767) 0 [src] h of
                 (oc, out, rs', h', evs) \<Rightarrow>
                   ((case oc of Drained \<Rightarrow> Ret None | Failed e \<Rightarrow> Ret (Some e) | Panicked \<Rightarrow> Panics),
                    buf_Write d out h'))))"
proof (cases src)
  case None
  then show ?thesis by (simp add: io_Copy_def ReadAll_nil_reader)
next
  case (Some a)
  show ?thesis
  proof (cases "lookup h a")
    case None
    have "ReadAll (\<lambda>i. 32767) 0 [Some a] h = (Panicked, [], [Some a], h, [])"
      using None by (subst ReadAll.simps) simp
    with None Some show ?thesis by (simp add: io_Copy_def)
  next
    case (Some ob)
    with \<open>src = Some a\<close> io_Copy_Buffer [of h a _ d] show ?thesis
      by (cases ob) (simp_all add: io_Copy_def)
  qed
qed

subsection \<open>What reading leaves alone\<close>

lemma obj_Read_open:
  "obj_Read k (File c off False) = (out, err, ob') \<Longrightarrow> \<exists>off'. ob' = File c off' False"
  by (auto split: if_splits)

lemma mr_Read_open:
  "is_open h a \<Longrightarrow> mr_Read k rs h = (out, r, rs', h', evs) \<Longrightarrow> is_open h' a"
proof (induction rs arbitrary: h out r rs' h' evs)
  case Nil
  then show ?case by simp
next
  case (Cons x rs)
  show ?case
  proof (cases x)
    case None
    with Cons.prems show ?thesis by simp
  next
    case (Some b)
    show ?thesis
    proof (cases "lookup h b")
      case None
      with Cons.prems Some show ?thesis by simp
    next
      case (Some ob)
      obtain o1 e1 ob1 where rd: "obj_Read k ob = (o1, e1, ob1)"
        by (cases "obj_Read k ob") auto
      have o1: "is_open (h[b := ob1]) a"
      proof (cases "a = b")
        case True
        with Cons.prems(1) Some obtain c off where "ob = File c off False"
          by (auto simp: is_open_def split: obj.splits)
        then obtain off' where "ob1 = File c off' False"
          using obj_Read_open [of k c off o1 e1 ob1] rd by blast
        with True Some show ?thesis
          by (simp add: is_open_def lookup_update_same)
      next
        case False
        with Cons.prems(1) show ?thesis
          by (simp add: is_open_def lookup_update_other)
      qed
      show ?thesis
      proof (cases "o1 \<noteq> [] \<or> e1 \<noteq> Some EOF")
        case True
        with Cons.prems \<open>x = Some b\<close> Some rd have "h' = h[b := ob1]"
          by (auto split: if_splits)
        with o1 show ?thesis by simp
      next
        case False
        with Cons.prems \<open>x = Some b\<close> Some rd
        obtain evs2 where "mr_Read k rs (h[b := ob1]) = (out, r, rs', h', evs2)"
          by (auto split: prod.splits)
        from Cons.IH [OF o1 this] show ?thesis .
      qed
    qed
  qed
qed

lemma ReadAll_open:
  "is_open h a \<Longrightarrow> ReadAll sz i rs h = (oc, out, rs', h', evs) \<Longrightarrow> is_open h' a"
proof (induction sz i rs h arbitrary: oc out rs' h' evs rule: ReadAll.induct)
  case (1 sz i rs h)
  obtain o1 r1 rs1 h1 ev1 where m: "mr_Read (Suc (sz i)) rs h = (o1, r1, rs1, h1, ev1)"
    by (cases "mr_Read (Suc (sz i)) rs h") auto
  note s1 = mr_Read_open [OF "1.prems"(1) m]
  show ?case
  proof (cases "r1 = Ret None")
    case True
    obtain oc2 o2 rs2 h2 ev2 where r: "ReadAll sz (Suc i) rs1 h1 = (oc2, o2, rs2, h2, ev2)"
      by (cases "ReadAll sz (Suc i) rs1 h1") auto
    have "is_open h2 a"
      by (rule "1.IH" [OF m [symmetric] refl True refl refl refl s1 r])
    moreover have "h' = h2"
      using "1.prems"(2) m True r by (subst (asm) ReadAll.simps) simp
    ultimately show ?thesis by simp
  next
    case False
    then have "h' = h1"
      using "1.prems"(2) m by (subst (asm) ReadAll.simps) (auto split: ret.splits option.splits)
    with s1 show ?thesis by simp
  qed
qed

lemma Drain_open: "is_open h a \<Longrightarrow> is_open (heap_after (Drain sz rc h)) a"
proof -
  assume o: "is_open h a"
  obtain rs where rc: "rc = NopCloser (MultiReader rs)"
    by (metis ReadCloser.exhaust multiReader.exhaust)
  obtain oc out rs' h' evs where r: "ReadAll sz 0 rs h = (oc, out, rs', h', evs)"
    by (cases "ReadAll sz 0 rs h") auto
  from ReadAll_open [OF o r] show ?thesis
    by (simp add: rc r)
qed



subsection \<open>No call closes a file handle\<close>

lemma is_open_update: "is_open h a \<Longrightarrow> a \<noteq> b \<Longrightarrow> is_open (h[b := ob]) a"
  by (simp add: is_open_def lookup_update_other)

lemma is_open_buf_Write: "is_open h a \<Longrightarrow> is_open (buf_Write d p h) a"
proof (cases "a = d")
  case True
  assume "is_open h a"
  with True have "buf_Write d p h = h"
    by (auto simp: buf_Write_def is_open_def split: option.splits obj.splits)
  with \<open>is_open h a\<close> show ?thesis by simp
next
  case False
  assume "is_open h a"
  with False show ?thesis
    by (auto simp: buf_Write_def is_open_update split: option.splits obj.splits)
qed

lemma is_open_alloc: "is_open h a \<Longrightarrow> alloc ob h = (b, h') \<Longrightarrow> is_open h' a"
  by (auto simp: is_open_def alloc_def lookup_def nth_append split: if_splits)

lemma CreatePart_open:
  "is_open h a \<Longrightarrow> CreatePart hdr w h = (e, w', h') \<Longrightarrow> is_open h' a"
  by (auto simp: CreatePart_eq is_open_buf_Write)

lemma WriteField_open:
  "is_open h a \<Longrightarrow> WriteField k v w h = (e, w', h') \<Longrightarrow> is_open h' a"
  by (auto simp: WriteField_def CreateFormField_def CreatePart_eq is_open_buf_Write)

lemma WriteFields_open:
  "is_open h a \<Longrightarrow> WriteFields kvs m h = (e, m', h') \<Longrightarrow> is_open h' a"
proof (induction kvs arbitrary: m h)
  case Nil
  then show ?case by simp
next
  case (Cons kv kvs)
  obtain k v where kv: "kv = (k, v)" by (cases kv) auto
  obtain e1 w1 h1 where w: "WriteField k v (bodyWriter m) h = (e1, w1, h1)"
    by (cases "WriteField k v (bodyWriter m) h") auto
  note o1 = WriteField_open [OF Cons.prems(1) w]
  show ?case
  proof (cases e1)
    case None
    with Cons.prems(2) kv w have "WriteFields kvs (m\<lparr>bodyWriter := w1\<rparr>) h1 = (e, m', h')"
      by simp
    from Cons.IH [OF o1 this] show ?thesis .
  next
    case (Some x)
    with Cons.prems(2) kv w have "h' = h1" by simp
    with o1 show ?thesis by simp
  qed
qed

lemma WriteReader_open:
  "is_open h a \<Longrightarrow> WriteReader key filename n rd m h = (e, m', h') \<Longrightarrow> is_open h' a"
  using WriteReader_heap [of key filename n rd m h e m' h'] by (auto simp: is_open_buf_Write)

lemma WriteReaderWithHeaders_open:
  "is_open h a \<Longrightarrow> WriteReaderWithHeaders key filename rd headers m h = (r, m', h')
     \<Longrightarrow> is_open h' a"
  by (auto simp: WriteReaderWithHeaders_def Let_def CreatePart_eq is_open_buf_Write
           split: option.splits any.splits)

lemma WriteReaderWithSize_open:
  "is_open h a \<Longrightarrow> WriteReaderWithSize key filename n rd m h = (r, m', h') \<Longrightarrow> is_open h' a"
  unfolding WriteReaderWithSize_def by (rule WriteReaderWithHeaders_open)

lemma WriteFile_open:
  assumes "is_open h a" and "WriteFile fs key filename m h = (e, m', h')"
  shows "is_open h' a"
proof (cases "fs filename")
  case None
  with assms show ?thesis
    by (simp add: WriteFile_def os_Open_def)
next
  case (Some c)
  obtain fh h1 where al: "alloc (File c 0 False) h = (fh, h1)"
    by (cases "alloc (File c 0 False) h") auto
  note o1 = is_open_alloc [OF assms(1) al]
  show ?thesis
  proof (cases "file_Stat fh h1")
    case (Inl x)
    with assms(2) Some al have "h' = h1"
      by (simp add: WriteFile_def os_Open_def)
    with o1 show ?thesis by simp
  next
    case (Inr n)
    with assms(2) Some al
    have "WriteReader key (Base filename) (word_of_nat n) (Some fh) m h1 = (e, m', h')"
      by (simp add: WriteFile_def os_Open_def)
    from WriteReader_open [OF o1 this] show ?thesis .
  qed
qed

lemma io_Copy_open:
  assumes "is_open h a" and "io_Copy d src h = (r, h')"
  shows "is_open h' a"
proof -
  obtain oc out rs1 h1 evs where r: "ReadAll (\<lambda>i. 32767) 0 [src] h = (oc, out, rs1, h1, evs)"
    by (cases "ReadAll (\<lambda>i. 32767) 0 [src] h") auto
  with assms(2) have "h' = buf_Write d out h1"
    by (simp add: io_Copy_def)
  with ReadAll_open [OF assms(1) r] show ?thesis
    by (simp add: is_open_buf_Write)
qed

lemma WritePart_open:
  assumes "is_open h a" and "WritePart fieldname data headers m h = (r, m', h')"
  shows "is_open h' a"
proof -
  define hdr where "hdr = fold (\<lambda>(k, v). MIMEHeader_Set k v) headers
                  (MIMEHeader_Set ''Content-Disposition''
                     (''form-data; name='' @ [DQ] @ escapeQuotes fieldname @ [DQ]) [])"
  have w: "WritePart fieldname data headers m h =
             (case CreatePart hdr (bodyWriter m) h of
                (Some e, w', h') \<Rightarrow> (Ret (Some e), m\<lparr>bodyWriter := w'\<rparr>, h')
              | (None, w', h') \<Rightarrow>
                  (case io_Copy (dst w') data h' of (r, h'') \<Rightarrow> (r, m\<lparr>bodyWriter := w'\<rparr>, h'')))"
    unfolding WritePart_def Let_def hdr_def ..
  obtain e1 w1 h1 where c: "CreatePart hdr (bodyWriter m) h = (e1, w1, h1)"
    by (cases "CreatePart hdr (bodyWriter m) h") auto
  note o1 = CreatePart_open [OF assms(1) c]
  show ?thesis
  proof (cases e1)
    case (Some x)
    with assms(2) w c have "h' = h1" by simp
    with o1 show ?thesis by simp
  next
    case None
    obtain r2 h2 where i: "io_Copy (dst w1) data h1 = (r2, h2)"
      by (cases "io_Copy (dst w1) data h1") auto
    with assms(2) w c None have "h' = h2" by simp
    with io_Copy_open [OF o1 i] show ?thesis by simp
  qed
qed

lemma Read_open: "is_open h a \<Longrightarrow> is_open (heap_next (Read k rc h)) a"
proof -
  assume o: "is_open h a"
  obtain rs where rc: "rc = NopCloser (MultiReader rs)"
    by (metis ReadCloser.exhaust multiReader.exhaust)
  obtain out r rs' h' evs where m: "mr_Read k rs h = (out, r, rs', h', evs)"
    by (cases "mr_Read k rs h") auto
  from mr_Read_open [OF o m] show ?thesis
    by (simp add: rc m)
qed

lemma Close_nil: "Close rc h = (None, h)"
  by (cases rc) simp

lemma perform_open:
  assumes "is_open (heap_of s) a"
  shows "is_open (heap_of (perform fs p s)) a"
proof -
  obtain m rcs h where s: "s = (m, rcs, h)"
    by (cases s) auto
  from assms s have o: "is_open h a"
    by (simp add: heap_of_def)
  show ?thesis
  proof (cases p)
    case (DoWriteFields kvs)
    obtain e m' h' where w: "WriteFields kvs m h = (e, m', h')"
      by (cases "WriteFields kvs m h") auto
    from WriteFields_open [OF o w] show ?thesis
      by (simp add: s DoWriteFields w heap_of_def)
  next
    case (DoWritePart fieldname data headers)
    obtain r m' h' where w: "WritePart fieldname data headers m h = (r, m', h')"
      by (cases "WritePart fieldname data headers m h") auto
    from WritePart_open [OF o w] show ?thesis
      by (simp add: s DoWritePart w heap_of_def)
  next
    case (DoWriteReader key filename n rd)
    obtain e m' h' where w: "WriteReader key filename n rd m h = (e, m', h')"
      by (cases "WriteReader key filename n rd m h") auto
    from WriteReader_open [OF o w] show ?thesis
      by (simp add: s DoWriteReader w heap_of_def)
  next
    case (DoWriteReaderWithHeaders key filename rd headers)
    obtain r m' h' where w: "WriteReaderWithHeaders key filename rd headers m h = (r, m', h')"
      by (cases "WriteReaderWithHeaders key filename rd headers m h") auto
    from WriteReaderWithHeaders_open [OF o w] show ?thesis
      by (simp add: s DoWriteReaderWithHeaders w heap_of_def)
  next
    case (DoWriteReaderWithSize key filename n rd)
    obtain r m' h' where w: "WriteReaderWithSize key filename n rd m h = (r, m', h')"
      by (cases "WriteReaderWithSize key filename n rd m h") auto
    from WriteReaderWithSize_open [OF o w] show ?thesis
      by (simp add: s DoWriteReaderWithSize w heap_of_def)
  next
    case (DoWriteFile key filename)
    obtain e m' h' where w: "WriteFile fs key filename m h = (e, m', h')"
      by (cases "WriteFile fs key filename m h") auto
    from WriteFile_open [OF o w] show ?thesis
      by (simp add: s DoWriteFile w heap_of_def)
  next
    case DoLen
    with o show ?thesis by (simp add: s heap_of_def)
  next
    case DoBoundary
    with o show ?thesis by (simp add: s heap_of_def)
  next
    case DoGetReader
    with o show ?thesis by (simp add: s heap_of_def)
  next
    case (DoRead i k)
    with o Read_open [OF o, of k "rcs ! i"] show ?thesis
      by (simp add: s heap_of_def)
  next
    case (DoClose i)
    with o show ?thesis by (simp add: s heap_of_def Close_nil)
  qed
qed

lemma perform_all_open:
  "is_open (heap_of s) a \<Longrightarrow> is_open (heap_of (perform_all fs ps s)) a"
  by (induction ps arbitrary: s) (simp_all add: perform_open)

subsection \<open>Header lines\<close>








subsection \<open>The scenario of the specification, evaluated\<close>

lemma upload_of_state:
  "case upload_of rnd src of
     (m, h) \<Rightarrow>
       composer_ok m h \<and> buffer_at h (bodyBuffer m) = Some upload_header
       \<and> reader m = Some 0 \<and> lookup h 0 = Some src
       \<and> buffer_at h (closeBuffer m) = Some upload_trailer \<and> contentLength m = 5"
  by code_simp

section \<open>The claims\<close>

subsection \<open>C1: the declared length and the drained bytes\<close>

text \<open>
  Claim C1 (the code departs from it for a build without a registration). After any build
  phase that starts from \<open>New\<close>:
  \<^item> with no payload registered, \<open>Len\<close> counts the header and the trailer, but the drain
    panics after the header: the stream delivers the header only, and the trailer that
    \<open>Len\<close> counted stays in its buffer;
  \<^item> with one payload registered by \<open>WriteReader\<close>, whose source delivers exactly the
    declared number of bytes, \<open>Len\<close> is the number of bytes that the drain delivers.
\<close>

theorem Len_and_drained_bytes:
  assumes "New rnd (map WithBoundary bs) h0 = (m0, h1)"
    and "run_calls cs m0 h1 = (r, m, h)"
  shows "(\<exists>hdr trl.
            buffer_at h (bodyBuffer m) = Some hdr \<and> buffer_at h (closeBuffer m) = Some trl
            \<and> Len m h = Some (word_of_nat (length hdr) + word_of_nat (length trl))
            \<and> ending (Drain sz (GetReader m) h) = Panicked
            \<and> received (Drain sz (GetReader m) h) = hdr
            \<and> buffer_at (heap_after (Drain sz (GetReader m) h)) (closeBuffer m) = Some trl)
         \<and> (\<forall>key filename n a e m' h' payload.
               WriteReader key filename n (Some a) m h = (e, m', h')
               \<and> Some a \<noteq> bodyBuffer m \<and> Some a \<noteq> closeBuffer m
               \<and> source_at h (Some a) = Some payload \<and> sint n = int (length payload)
               \<and> length (the (buffer_at h' (bodyBuffer m'))) + length payload
                   + length (the (buffer_at h' (closeBuffer m'))) < 2 ^ 63
               \<longrightarrow> (\<exists>l. Len m' h' = Some l
                        \<and> ending (Drain sz (GetReader m') h') = Drained
                        \<and> sint l = int (length (received (Drain sz (GetReader m') h')))))"
proof -
  note n0 = New_ok [OF assms(1)]
  from run_calls_ok [OF n0(1) assms(2)] n0(2,3)
  have ok: "composer_ok m h" and nil: "reader m = None" and zero: "contentLength m = 0"
    by auto
  from ok obtain hdr trl where b: "buffer_at h (bodyBuffer m) = Some hdr"
      "buffer_at h (closeBuffer m) = Some trl"
    by (auto simp: composer_ok_def)
  from Drain_unregistered [OF b(1) nil ok, of sz] b(2)
  have d: "ending (Drain sz (GetReader m) h) = Panicked"
     "received (Drain sz (GetReader m) h) = hdr"
     "buffer_at (heap_after (Drain sz (GetReader m) h)) (closeBuffer m) = Some trl"
    by auto
  have l: "Len m h = Some (word_of_nat (length hdr) + word_of_nat (length trl))"
    using Len_eq [OF b] zero by simp
  have second: "\<exists>l. Len m' h' = Some l
                  \<and> ending (Drain sz (GetReader m') h') = Drained
                  \<and> sint l = int (length (received (Drain sz (GetReader m') h')))"
    if w: "WriteReader key filename n (Some a) m h = (e, m', h')"
      and ne: "Some a \<noteq> bodyBuffer m" "Some a \<noteq> closeBuffer m"
      and src: "source_at h (Some a) = Some payload"
      and decl: "sint n = int (length payload)"
      and bound: "length (the (buffer_at h' (bodyBuffer m'))) + length payload
                   + length (the (buffer_at h' (closeBuffer m'))) < 2 ^ 63"
    for key filename n a e m' h' payload
  proof -
    from WriteReader_ok [OF ok w ne]
    have ok': "composer_ok m' h'" and rd: "reader m' = Some a" and cl: "contentLength m' = n"
      by auto
    from ok' obtain hdr' trl' where b': "buffer_at h' (bodyBuffer m') = Some hdr'"
        "buffer_at h' (closeBuffer m') = Some trl'"
      by (auto simp: composer_ok_def)
    have src': "source_at h' (reader m') = Some payload"
      using WriteReader_frame(1) [OF ok w ne(1)] src rd by simp
    have decl': "sint (contentLength m') = int (length payload)"
      using decl cl by simp
    have bound': "length hdr' + length payload + length trl' < 2 ^ 63"
      using bound b' by simp
    let ?l = "contentLength m' + word_of_nat (length hdr') + word_of_nat (length trl')"
    have "int (length hdr') + int (length payload) + int (length trl') < 2 ^ 63"
      using bound' by (metis of_nat_add of_nat_less_numeral_power_cancel_iff)
    then have s: "sint ?l = sint (contentLength m') + int (length hdr') + int (length trl')"
      using decl' by (intro sint_add3) auto
    from Drain_registered [OF ok' b'(1) src' b'(2), of sz]
    have "ending (Drain sz (GetReader m') h') = Drained"
      and "received (Drain sz (GetReader m') h') = hdr' @ payload @ trl'"
      by auto
    with Len_eq [OF b'] s decl' show ?thesis by simp
  qed
  from b l d second show ?thesis
    by blast
qed

theorem Len_and_drained_bytes_witness:
  "Len (fst fields_only) (snd fields_only) = Some 199
   \<and> ending (Drain (\<lambda>i. 4095) (GetReader (fst fields_only)) (snd fields_only)) = Panicked
   \<and> length (received (Drain (\<lambda>i. 4095) (GetReader (fst fields_only)) (snd fields_only))) = 190"
proof -
  obtain m0 h1 where n: "New ''5f2a9c'' (map WithBoundary [''X'']) [Buffer ''{}''] = (m0, h1)"
    by (cases "New ''5f2a9c'' (map WithBoundary [''X'']) [Buffer ''{}'']") auto
  obtain r m h where
    c: "run_calls [CallWriteFields [(''a'', ''1''), (''b'', ''2'')],
                   CallWritePart ''meta'' (Some 0) [(''Content-Type'', ''application/json'')]]
          m0 h1 = (r, m, h)"
    by (metis prod_cases3)
  have f: "fields_only = (m, h)"
    unfolding fields_only_def n by (simp only: prod.case c snd_conv)
  have "case fields_only of
          (m, h) \<Rightarrow> Len m h = Some 199
            \<and> map_option length (buffer_at h (bodyBuffer m)) = Some 190"
    by code_simp
  then have v: "Len m h = Some 199" "map_option length (buffer_at h (bodyBuffer m)) = Some 190"
    unfolding f by simp_all
  from Len_and_drained_bytes [OF n c, of "\<lambda>i. 4095", THEN conjunct1]
  obtain hdr where "buffer_at h (bodyBuffer m) = Some hdr"
    and "ending (Drain (\<lambda>i. 4095) (GetReader m) h) = Panicked"
    and "received (Drain (\<lambda>i. 4095) (GetReader m) h) = hdr"
    by blast
  with v show ?thesis
    unfolding f fst_conv snd_conv by simp
qed

subsection \<open>C2: the order of the three segments\<close>

text \<open>
  Claim C2. For every composer with a registered payload source that can be read: the
  run of a full drain (whatever sizes the consumer asks for) ends with \<open>io.EOF\<close>; its
  calls on the underlying objects are first calls on the header buffer only, which
  return the whole header, then calls on the payload source only, the last of which
  answers \<open>io.EOF\<close>, then calls on the trailer buffer only; the bytes received are the
  bytes of these calls in this order, that is header, payload, trailer.
\<close>

theorem header_then_payload_then_trailer:
  assumes "composer_ok m h"
    and "buffer_at h (bodyBuffer m) = Some hdr"
    and "source_at h (reader m) = Some payload"
    and "buffer_at h (closeBuffer m) = Some trl"
  shows "\<exists>evh evp evt.
           ending (Drain sz (GetReader m) h) = Drained
           \<and> calls (Drain sz (GetReader m) h) = evh @ evp @ evt
           \<and> reads_all (bodyBuffer m) hdr evh
           \<and> reads_all (reader m) payload evp
           \<and> reads_all (closeBuffer m) trl evt
           \<and> received (Drain sz (GetReader m) h) = concat (map ev_bytes (evh @ evp @ evt))
           \<and> received (Drain sz (GetReader m) h) = hdr @ payload @ trl"
proof -
  from Drain_registered [OF assms, of sz]
  obtain evh evp evt where
    d: "ending (Drain sz (GetReader m) h) = Drained"
       "received (Drain sz (GetReader m) h) = hdr @ payload @ trl"
       "calls (Drain sz (GetReader m) h) = evh @ evp @ evt"
       "reads_all (bodyBuffer m) hdr evh"
       "reads_all (reader m) payload evp"
       "reads_all (closeBuffer m) trl evt"
    by blast
  have "concat (map ev_bytes (evh @ evp @ evt)) = hdr @ payload @ trl"
    using d(4,5,6) by (simp add: reads_all_def)
  with d show ?thesis
    by (intro exI [of _ evh] exI [of _ evp] exI [of _ evt]) simp
qed

theorem header_then_payload_then_trailer_witness:
  "composer_ok (fst upload) (snd upload)
   \<and> source_at (snd upload) (reader (fst upload)) = Some ''hello''
   \<and> ending (Drain (\<lambda>i. 6) (GetReader (fst upload)) (snd upload)) = Drained
   \<and> received (Drain (\<lambda>i. 6) (GetReader (fst upload)) (snd upload))
       = upload_header @ ''hello'' @ upload_trailer"
proof -
  have "case upload of
          (m, h) \<Rightarrow>
            composer_ok m h \<and> buffer_at h (bodyBuffer m) = Some upload_header
            \<and> source_at h (reader m) = Some ''hello''
            \<and> buffer_at h (closeBuffer m) = Some upload_trailer"
    by code_simp
  then have a: "composer_ok (fst upload) (snd upload)"
    and b: "buffer_at (snd upload) (bodyBuffer (fst upload)) = Some upload_header"
    and c: "source_at (snd upload) (reader (fst upload)) = Some ''hello''"
    and d: "buffer_at (snd upload) (closeBuffer (fst upload)) = Some upload_trailer"
    by (auto simp: split_beta)
  from header_then_payload_then_trailer [OF a b c d, of "\<lambda>i. 6"] a c
  show ?thesis by auto
qed

subsection \<open>C3: a composer without a payload\<close>

text \<open>
  Claim C3 (the code departs from it). With no payload registered \<open>Len\<close> is the length
  of the header buffer plus the length of the trailer buffer, as the claim says. But
  draining the stream does not succeed: once the header has been delivered the
  multiReader calls \<open>Read\<close> on the nil reader and the program panics; the trailer is
  never delivered.
\<close>

theorem no_payload_drain_panics:
  assumes "composer_ok m h" and "reader m = None" and "contentLength m = 0"
    and "buffer_at h (bodyBuffer m) = Some hdr"
    and "buffer_at h (closeBuffer m) = Some trl"
  shows "Len m h = Some (word_of_nat (length hdr) + word_of_nat (length trl))
         \<and> ending (Drain sz (GetReader m) h) = Panicked
         \<and> received (Drain sz (GetReader m) h) = hdr
         \<and> buffer_at (heap_after (Drain sz (GetReader m) h)) (closeBuffer m) = Some trl"
proof -
  from Drain_unregistered [OF assms(4,2,1), of sz] assms(5)
  have "ending (Drain sz (GetReader m) h) = Panicked
        \<and> received (Drain sz (GetReader m) h) = hdr
        \<and> buffer_at (heap_after (Drain sz (GetReader m) h)) (closeBuffer m) = Some trl"
    by auto
  moreover have "Len m h = Some (word_of_nat (length hdr) + word_of_nat (length trl))"
    using Len_eq [OF assms(4,5)] assms(3) by simp
  ultimately show ?thesis by simp
qed

theorem no_payload_drain_panics_witness:
  "composer_ok (fst fields_only) (snd fields_only)
   \<and> reader (fst fields_only) = None
   \<and> Len (fst fields_only) (snd fields_only) = Some 199
   \<and> ending (Drain (\<lambda>i. 4095) (GetReader (fst fields_only)) (snd fields_only)) = Panicked
   \<and> length (received (Drain (\<lambda>i. 4095) (GetReader (fst fields_only)) (snd fields_only))) = 190
   \<and> buffer_at (heap_after (Drain (\<lambda>i. 4095) (GetReader (fst fields_only)) (snd fields_only)))
        (closeBuffer (fst fields_only)) = Some (CRLF @ ''--X--'' @ CRLF)"
proof -
  have "case fields_only of
          (m, h) \<Rightarrow>
            composer_ok m h \<and> reader m = None \<and> contentLength m = 0
            \<and> map_option length (buffer_at h (bodyBuffer m)) = Some 190
            \<and> buffer_at h (closeBuffer m) = Some (CRLF @ ''--X--'' @ CRLF)"
    by code_simp
  then obtain hdr where a: "composer_ok (fst fields_only) (snd fields_only)"
    and b: "reader (fst fields_only) = None" "contentLength (fst fields_only) = 0"
    and c: "buffer_at (snd fields_only) (bodyBuffer (fst fields_only)) = Some hdr"
    and l: "length hdr = 190"
    and d: "buffer_at (snd fields_only) (closeBuffer (fst fields_only)) = Some (CRLF @ ''--X--'' @ CRLF)"
    by (auto simp: split_beta)
  from no_payload_drain_panics [OF a b c d, of "\<lambda>i. 4095"] a b l
  show ?thesis by (simp add: CRLF_def)
qed

subsection \<open>C4: closing the stream\<close>

text \<open>
  Claim C4, as stated, fails: the stream is wrapped in \<open>ioutil.NopCloser\<close>, whose \<open>Close\<close>
  does nothing. In the example the handle that \<open>WriteFile\<close> opened (address 2) is still
  open after \<open>Close\<close>, whether the consumer closes at once or after a full drain; only
  \<open>os.File.Close\<close> on the handle itself, which the composer never calls, releases it.
\<close>

theorem Close_releases_counterexample:
  "reader (fst file_upload) = Some 2
   \<and> is_open (snd file_upload) 2
   \<and> is_open (snd (Close (GetReader (fst file_upload)) (snd file_upload))) 2
   \<and> ending (Drain (\<lambda>i. 15) (GetReader (fst file_upload)) (snd file_upload)) = Drained
   \<and> is_open (snd (Close (stream_after (Drain (\<lambda>i. 15) (GetReader (fst file_upload))
                                            (snd file_upload)))
                        (heap_after (Drain (\<lambda>i. 15) (GetReader (fst file_upload))
                                           (snd file_upload))))) 2
   \<and> \<not> is_open (snd (file_Close 2 (snd file_upload))) 2"
  by code_simp

text \<open>
  Claim C4, amended. \<open>Close\<close> on the \<open>ReadCloser\<close> returned by \<open>GetReader\<close> returns nil
  and changes nothing. For every composer on which \<open>WriteFile\<close> succeeded, the file
  handle it opened is the registered reader and is open, and it is still open after
  every sequence of calls on the composer and on the streams obtained from it: the
  build calls, \<open>Len\<close>, \<open>Boundary\<close>, \<open>GetReader\<close>, and \<open>Read\<close> and \<open>Close\<close> on any stream,
  whether a stream is read to the end, in part or not at all. The same holds of every
  open file handle, such as one that the caller registered with \<open>WriteReader\<close>: no call
  of the package closes a file handle.
\<close>

theorem Close_is_a_noop:
  assumes "composer_ok m h" and "WriteFile fs key filename m h = (None, m', h')"
  shows "\<exists>fh. reader m' = Some fh \<and> is_open h' fh
           \<and> (\<forall>rc hp. Close rc hp = (None, hp))
           \<and> (\<forall>fs' ops rcs. is_open (heap_of (perform_all fs' ops (m', rcs, h'))) fh)
           \<and> (\<forall>fs' ops ms rcs hp a.
                 is_open hp a \<longrightarrow> is_open (heap_of (perform_all fs' ops (ms, rcs, hp))) a)"
proof -
  from WriteFile_ok(2) [OF assms refl]
  obtain c where f: "reader m' = Some (length h)" "lookup h' (length h) = Some (File c 0 False)"
    by blast
  have o: "is_open h' (length h)"
    using f(2) by (simp add: is_open_def)
  have cl: "Close rc hp = (None, hp)" for rc hp
    by (rule Close_nil)
  have inv: "is_open (heap_of (perform_all fs' ops (ms, rcs, hp))) a"
    if "is_open hp a" for fs' ops ms rcs hp a
    using that by (intro perform_all_open) (simp add: heap_of_def)
  from f(1) o cl inv show ?thesis
    by blast
qed

theorem Close_is_a_noop_witness:
  "Close (GetReader (fst file_upload)) (snd file_upload) = (None, snd file_upload)
   \<and> reader (fst file_upload) = Some 2
   \<and> is_open (snd file_upload) 2
   \<and> lookup (heap_of (perform_all (map_of [(''/tmp/a.bin'', ''hello'')]) early_exit
                         (fst file_upload, [], snd file_upload))) 2
       = Some (File ''hello'' 3 False)
   \<and> is_open (heap_of (perform_all (map_of [(''/tmp/a.bin'', ''hello'')]) early_exit
                          (fst file_upload, [], snd file_upload))) 2"
proof -
  have part: "lookup (heap_of (perform_all (map_of [(''/tmp/a.bin'', ''hello'')]) early_exit
                         (fst file_upload, [], snd file_upload))) 2
       = Some (File ''hello'' 3 False)"
    by code_simp
  obtain m0 h0 where n: "New ''5f2a9c'' (map WithBoundary [''X'']) [] = (m0, h0)"
    by (metis surj_pair)
  obtain e m h where
    w: "WriteFile (map_of [(''/tmp/a.bin'', ''hello'')]) ''file'' ''/tmp/a.bin'' m0 h0 = (e, m, h)"
    by (metis prod_cases3)
  have f: "file_upload = (m, h)"
    unfolding file_upload_def using n w by (simp only: list.map prod.case snd_conv)
  have ok0: "composer_ok m0 h0"
    by (rule New_ok(1) [OF n])
  have e: "e = None"
  proof (cases e)
    case (Some x)
    then have "map_of [(''/tmp/a.bin'', ''hello'')] ''/tmp/a.bin'' = None"
      using WriteFile_ok(3) [OF ok0 w] by simp
    then show ?thesis by simp
  qed simp
  have "length h0 = 2"
    using New_ok(7) [OF n] n by (auto simp: New_def alloc_def Let_def WithBoundary_apply
                                   split: prod.splits)
  moreover from WriteFile_ok(2) [OF ok0 w e] have "reader m = Some (length h0)"
    by blast
  ultimately have rd: "reader m = Some 2"
    by simp
  from Close_is_a_noop [OF ok0 w [unfolded e]] rd part show ?thesis
    unfolding f fst_conv snd_conv by auto
qed

subsection \<open>C5: the scenario of the specification\<close>

text \<open>
  Claim C5, as stated, fails: \<open>WriteReader\<close> frames the payload with
  \<open>CreateFormFile\<close>, which adds the header line
  \<open>Content-Type: application/octet-stream\<close>. The stream of the scenario is therefore 40
  bytes longer than the expected one, and \<open>Len\<close> is 190, not 150.
\<close>

theorem expected_stream_counterexample:
  "received (Drain (\<lambda>i. 15) (GetReader (fst upload)) (snd upload)) \<noteq> expected_stream
   \<and> length (received (Drain (\<lambda>i. 15) (GetReader (fst upload)) (snd upload))) = 190
   \<and> length expected_stream = 150
   \<and> Len (fst upload) (snd upload) = Some 190"
  by code_simp

text \<open>
  Claim C5, amended. In the scenario, whatever boundary \<open>New\<close> would have drawn, however
  the source hands out its five bytes \<open>hello\<close> and whatever sizes the consumer asks
  for, the drained stream is
  \<^verbatim>\<open>--X\r\nContent-Disposition: form-data; name="parameters"\r\n\r\n{"x":1}\r\n--X\r\n\<close>
  \<^verbatim>\<open>Content-Disposition: form-data; name="file"; filename="file"\r\n\<close>
  \<^verbatim>\<open>Content-Type: application/octet-stream\r\n\r\nhello\r\n--X--\r\n\<close>
  and \<open>Len\<close> is its length, 190.
\<close>

theorem scenario_stream:
  assumes "readable src" and "content src = ''hello''"
  shows "ending (Drain sz (GetReader (fst (upload_of rnd src))) (snd (upload_of rnd src))) = Drained
         \<and> received (Drain sz (GetReader (fst (upload_of rnd src))) (snd (upload_of rnd src)))
             = upload_header @ ''hello'' @ upload_trailer
         \<and> Len (fst (upload_of rnd src)) (snd (upload_of rnd src)) = Some 190
         \<and> length (upload_header @ ''hello'' @ upload_trailer) = 190"
proof -
  obtain m h where u: "upload_of rnd src = (m, h)"
    by (cases "upload_of rnd src") auto
  from upload_of_state [where rnd = rnd and src = src]
  have ok: "composer_ok m h"
    and hdr: "buffer_at h (bodyBuffer m) = Some upload_header"
    and rd: "reader m = Some 0" "lookup h 0 = Some src"
    and trl: "buffer_at h (closeBuffer m) = Some upload_trailer"
    and cl: "contentLength m = 5"
    unfolding u by simp_all
  have src: "source_at h (reader m) = Some ''hello''"
    using rd assms by (simp add: source_at_def)
  have len: "length upload_header = 176" "length upload_trailer = 9"
    by code_simp+
  from Drain_registered [OF ok hdr src trl, of sz]
  have "ending (Drain sz (GetReader m) h) = Drained"
    and "received (Drain sz (GetReader m) h) = upload_header @ ''hello'' @ upload_trailer"
    by auto
  moreover have "Len m h = Some 190"
    using Len_eq [OF hdr trl] by (simp add: cl len)
  ultimately show ?thesis
    unfolding u fst_conv snd_conv by (simp add: len)
qed

theorem scenario_stream_witness:
  "readable (Source ''hello'' [0, 2] True)
   \<and> content (Source ''hello'' [0, 2] True) = ''hello''
   \<and> ending (Drain (\<lambda>i. 6) (GetReader (fst upload)) (snd upload)) = Drained
   \<and> received (Drain (\<lambda>i. 6) (GetReader (fst upload)) (snd upload))
       = upload_header @ ''hello'' @ upload_trailer
   \<and> Len (fst upload) (snd upload) = Some 190"
  using scenario_stream [where src = "Source ''hello'' [0, 2] True" and sz = "\<lambda>i. 6"
                          and rnd = "''5f2a9c''"]
  by (simp add: upload_def)

subsection \<open>C6: the declared length over time\<close>

text \<open>
  Claim C6, as stated, fails: the stream reads the composer's own two buffers, and
  \<open>bytes.Buffer.Len\<close> counts unread bytes only. In the worked upload \<open>Len\<close> is 190
  before the stream is read, 183 after one \<open>Read\<close> of seven bytes, and 5 (the declared
  payload length alone) after a full drain.
\<close>

theorem Len_after_reading_counterexample:
  "Len (fst upload) (snd upload) = Some 190
   \<and> Len (fst upload)
         (heap_next (Read 7 (GetReader (fst upload)) (snd upload))) = Some 183
   \<and> Len (fst upload) (heap_after (Drain (\<lambda>i. 6) (GetReader (fst upload)) (snd upload)))
       = Some 5"
  by code_simp

text \<open>
  Claim C6, amended. For every composer with a registered payload whose source delivers
  exactly the declared number of bytes (the total staying below \<open>2^63\<close>): \<open>Len\<close>, called
  after the build phase and before anything is read from the stream, is the length of
  the header buffer plus the declared payload length plus the length of the trailer
  buffer, and this is the number of bytes that a full drain delivers. Reading the stream
  consumes the two buffers: after a full drain \<open>Len\<close> is the declared payload length alone.
\<close>

theorem Len_before_reading:
  assumes "composer_ok m h"
    and "buffer_at h (bodyBuffer m) = Some hdr"
    and "source_at h (reader m) = Some payload"
    and "buffer_at h (closeBuffer m) = Some trl"
    and "sint (contentLength m) = int (length payload)"
    and "length hdr + length payload + length trl < 2 ^ 63"
  shows "\<exists>n. Len m h = Some n
             \<and> sint n = int (length hdr) + sint (contentLength m) + int (length trl)
             \<and> sint n = int (length (received (Drain sz (GetReader m) h)))
             \<and> Len m (heap_after (Drain sz (GetReader m) h)) = Some (contentLength m)"
proof -
  let ?n = "contentLength m + word_of_nat (length hdr) + word_of_nat (length trl)"
  have n: "Len m h = Some ?n"
    by (rule Len_eq [OF assms(2,4)])
  have "int (length hdr) + int (length payload) + int (length trl) < 2 ^ 63"
    using assms(6) by (metis of_nat_add of_nat_less_numeral_power_cancel_iff)
  then have s: "sint ?n = sint (contentLength m) + int (length hdr) + int (length trl)"
    using assms(5) by (intro sint_add3) auto
  from Drain_registered [OF assms(1-4), of sz]
  have r: "received (Drain sz (GetReader m) h) = hdr @ payload @ trl"
    and e: "buffer_at (heap_after (Drain sz (GetReader m) h)) (bodyBuffer m) = Some []"
       "buffer_at (heap_after (Drain sz (GetReader m) h)) (closeBuffer m) = Some []"
    by auto
  have "Len m (heap_after (Drain sz (GetReader m) h)) = Some (contentLength m)"
    using Len_eq [OF e] by simp
  with n s r assms(5) show ?thesis by simp
qed

theorem Len_before_reading_witness:
  "composer_ok (fst upload) (snd upload)
   \<and> source_at (snd upload) (reader (fst upload)) = Some ''hello''
   \<and> sint (contentLength (fst upload)) = 5
   \<and> (\<exists>n. Len (fst upload) (snd upload) = Some n
        \<and> sint n = int (length (received (Drain (\<lambda>i. 6) (GetReader (fst upload)) (snd upload)))))
   \<and> Len (fst upload) (heap_after (Drain (\<lambda>i. 6) (GetReader (fst upload)) (snd upload)))
       = Some 5"
proof -
  have "case upload of
          (m, h) \<Rightarrow>
            composer_ok m h \<and> buffer_at h (bodyBuffer m) = Some upload_header
            \<and> source_at h (reader m) = Some ''hello''
            \<and> buffer_at h (closeBuffer m) = Some upload_trailer
            \<and> contentLength m = 5 \<and> length upload_header = 176 \<and> length upload_trailer = 9"
    by code_simp
  then have a: "composer_ok (fst upload) (snd upload)"
    and b: "buffer_at (snd upload) (bodyBuffer (fst upload)) = Some upload_header"
    and c: "source_at (snd upload) (reader (fst upload)) = Some ''hello''"
    and d: "buffer_at (snd upload) (closeBuffer (fst upload)) = Some upload_trailer"
    and e: "contentLength (fst upload) = 5"
    and l: "length upload_header = 176" "length upload_trailer = 9"
    by (auto simp: split_beta)
  have f: "sint (contentLength (fst upload)) = int (length ''hello'')"
    by (simp add: e)
  have g: "length upload_header + length ''hello'' + length upload_trailer < 2 ^ 63"
    by (simp add: l)
  from Len_before_reading [OF a b c d f g, of "\<lambda>i. 6"] a c e
  show ?thesis by auto
qed

subsection \<open>C7: registering a payload twice\<close>

text \<open>
  Claim C7. When a payload is registered twice (by \<open>WriteReader\<close> or
  \<open>WriteReaderWithHeaders\<close>, in any combination) with two different sources, the
  composer keeps the second reader and the second declared length: \<open>Len\<close> is computed
  from the second length, the payload segment of the drained stream is the second
  source's bytes, and the first source is never read (it still holds all its bytes after
  the drain). The header holds the framing of both registrations.
\<close>

theorem second_registration_wins:
  assumes "composer_ok m h"
    and "register g1 (Some a1) m h = (Ret e1, m1, h1)"
    and "register g2 (Some a2) m1 h1 = (Ret e2, m2, h2)"
    and "a1 \<noteq> a2"
    and "Some a1 \<noteq> bodyBuffer m" and "Some a1 \<noteq> closeBuffer m"
    and "Some a2 \<noteq> bodyBuffer m" and "Some a2 \<noteq> closeBuffer m"
    and "source_at h (Some a1) = Some p1" and "source_at h (Some a2) = Some p2"
  shows "reader m2 = Some a2 \<and> declared g2 = Some (contentLength m2)
         \<and> (\<exists>hdr trl.
               buffer_at h2 (bodyBuffer m2) = Some hdr \<and> buffer_at h2 (closeBuffer m2) = Some trl
               \<and> Len m2 h2 = Some (contentLength m2 + word_of_nat (length hdr)
                                    + word_of_nat (length trl))
               \<and> ending (Drain sz (GetReader m2) h2) = Drained
               \<and> received (Drain sz (GetReader m2) h2) = hdr @ p2 @ trl
               \<and> source_at (heap_after (Drain sz (GetReader m2) h2)) (Some a1) = Some p1)"
proof -
  note r1 = register_ok [OF assms(1,2,5,6)]
  have ne2: "Some a2 \<noteq> bodyBuffer m1" "Some a2 \<noteq> closeBuffer m1"
    using assms(7,8) r1(4,5) by simp_all
  note r2 = register_ok [OF r1(1) assms(3) ne2]
  have s1: "source_at h2 (Some a1) = Some p1"
    using r1(6) [of "Some a1"] r2(6) [of "Some a1"] assms(5,9) r1(4) by simp
  have s2: "source_at h2 (reader m2) = Some p2"
    using r1(6) [of "Some a2"] r2(6) [of "Some a2"] assms(7,10) r1(4) r2(2) by simp
  from r2(1) obtain hdr trl where b: "buffer_at h2 (bodyBuffer m2) = Some hdr"
      "buffer_at h2 (closeBuffer m2) = Some trl"
    by (auto simp: composer_ok_def)
  have other: "Some a1 \<noteq> bodyBuffer m2" "Some a1 \<noteq> reader m2" "Some a1 \<noteq> closeBuffer m2"
    using assms(4,5,6) r1(4,5) r2(2,4,5) by simp_all
  from Drain_registered [OF r2(1) b(1) s2 b(2), of sz] other s1
  have "ending (Drain sz (GetReader m2) h2) = Drained"
    and "received (Drain sz (GetReader m2) h2) = hdr @ p2 @ trl"
    and "source_at (heap_after (Drain sz (GetReader m2) h2)) (Some a1) = Some p1"
    by auto
  with r2(2,3) b Len_eq [OF b] show ?thesis by simp
qed

theorem second_registration_wins_witness:
  "reader (fst registered_twice) = Some 1
   \<and> contentLength (fst registered_twice) = 7
   \<and> ending (Drain (\<lambda>i. 9) (GetReader (fst registered_twice)) (snd registered_twice)) = Drained
   \<and> take 7 (drop 205 (received (Drain (\<lambda>i. 9) (GetReader (fst registered_twice))
                                  (snd registered_twice)))) = ''second!''
   \<and> source_at (heap_after (Drain (\<lambda>i. 9) (GetReader (fst registered_twice))
                              (snd registered_twice))) (Some 0) = Some ''first''"
proof -
  obtain m0 h0 where n: "New ''5f2a9c'' (map WithBoundary [''X''])
                           [Source ''first'' [] False, Source ''second!'' [3] True] = (m0, h0)"
    by (metis surj_pair)
  obtain e1 m1 h1 where
    g1: "register (ByWriteReader ''file'' ''one.txt'' 5) (Some 0) m0 h0 = (Ret e1, m1, h1)"
    by (cases "WriteReader ''file'' ''one.txt'' 5 (Some 0) m0 h0") auto
  obtain r2 m2 h2 where
    g2: "register (ByWriteReaderWithHeaders ''file'' ''two.txt'' [(''Content-Length'', AInt64 7)])
           (Some 1) m1 h1 = (r2, m2, h2)"
    by (metis prod_cases3)
  have f: "registered_twice = (m2, h2)"
    unfolding registered_twice_def using n g1 g2 by (simp only: list.map prod.case snd_conv)
  have "case registered_twice of
          (m, h) \<Rightarrow> map_option length (buffer_at h (bodyBuffer m)) = Some 205"
    by code_simp
  then have l: "map_option length (buffer_at h2 (bodyBuffer m2)) = Some 205"
    unfolding f by simp
  have r2: "r2 = Ret None"
    using g2 WriteReaderWithHeaders_needs_int64_aux
            [of "[(''Content-Length'', AInt64 7)]" "''file''" "''two.txt''" "Some 1" m1 h1]
    by simp
  have ok0: "composer_ok m0 h0"
    by (rule New_ok(1) [OF n])
  have ptr: "bodyBuffer m0 = Some 2" "closeBuffer m0 = Some 3"
    using New_heap(1,2) [OF n] by simp_all
  have "lookup h0 0 = Some (Source ''first'' [] False)"
       "lookup h0 1 = Some (Source ''second!'' [3] True)"
    using New_heap(3) [OF n, of 0] New_heap(3) [OF n, of 1] by (simp_all add: lookup_def)
  then have src: "source_at h0 (Some 0) = Some ''first''" "source_at h0 (Some 1) = Some ''second!''"
    by (simp_all add: source_at_def)
  from second_registration_wins [OF ok0 g1 g2 [unfolded r2] _ _ _ _ _ src, of "\<lambda>i. 9"] ptr
  obtain hdr trl where
    "reader m2 = Some 1" "declared (ByWriteReaderWithHeaders ''file'' ''two.txt''
        [(''Content-Length'', AInt64 7)]) = Some (contentLength m2)"
    "buffer_at h2 (bodyBuffer m2) = Some hdr"
    "ending (Drain (\<lambda>i. 9) (GetReader m2) h2) = Drained"
    "received (Drain (\<lambda>i. 9) (GetReader m2) h2) = hdr @ ''second!'' @ trl"
    "source_at (heap_after (Drain (\<lambda>i. 9) (GetReader m2) h2)) (Some 0) = Some ''first''"
    by auto
  with l show ?thesis
    unfolding f fst_conv snd_conv by auto
qed

subsection \<open>C8: quoting of names\<close>




subsection \<open>C9: the type assertion in WriteReaderWithHeaders\<close>

text \<open>
  Claim C9. \<open>WriteReaderWithHeaders\<close> completes exactly when the map binds
  \<open>Content-Length\<close> to an \<open>int64\<close>. For every other map (no such key, or a value of
  another dynamic type, \<open>int\<close> included) it panics at the type assertion: the heap, and
  with it the body buffer, is as before, and only \<open>m.reader\<close> has been assigned.
\<close>

theorem WriteReaderWithHeaders_needs_int64:
  "if (\<exists>n. map_of headers ''Content-Length'' = Some (AInt64 n))
   then fst (WriteReaderWithHeaders key filename rd headers m h) = Ret None
   else WriteReaderWithHeaders key filename rd headers m h = (Panics, m\<lparr>reader := rd\<rparr>, h)"
  by (auto simp: WriteReaderWithHeaders_def CreatePart_eq Let_def
        split: option.splits any.splits)

theorem WriteReaderWithHeaders_needs_int64_witness:
  "fst (WriteReaderWithHeaders ''file'' ''a.bin'' (Some 0) [(''Content-Length'', AInt64 5)]
          (fst (New ''f3a9'' [] [Source ''hello'' [] False]))
          (snd (New ''f3a9'' [] [Source ''hello'' [] False])))
     = Ret None
   \<and> WriteReaderWithHeaders ''file'' ''a.bin'' (Some 0) [(''Content-Length'', AInt 5)]
          (fst (New ''f3a9'' [] [Source ''hello'' [] False]))
          (snd (New ''f3a9'' [] [Source ''hello'' [] False]))
     = (Panics, (fst (New ''f3a9'' [] [Source ''hello'' [] False]))\<lparr>reader := Some 0\<rparr>,
        snd (New ''f3a9'' [] [Source ''hello'' [] False]))
   \<and> WriteReaderWithHeaders ''file'' ''a.bin'' (Some 0) []
          (fst (New ''f3a9'' [] [Source ''hello'' [] False]))
          (snd (New ''f3a9'' [] [Source ''hello'' [] False]))
     = (Panics, (fst (New ''f3a9'' [] [Source ''hello'' [] False]))\<lparr>reader := Some 0\<rparr>,
        snd (New ''f3a9'' [] [Source ''hello'' [] False]))"
  using WriteReaderWithHeaders_needs_int64
          [where headers = "[(''Content-Length'', AInt64 5)]" and key = "''file''"
             and filename = "''a.bin''" and rd = "Some 0"
             and m = "fst (New ''f3a9'' [] [Source ''hello'' [] False])"
             and h = "snd (New ''f3a9'' [] [Source ''hello'' [] False])"]
        WriteReaderWithHeaders_needs_int64
          [where headers = "[(''Content-Length'', AInt 5)]" and key = "''file''"
             and filename = "''a.bin''" and rd = "Some 0"
             and m = "fst (New ''f3a9'' [] [Source ''hello'' [] False])"
             and h = "snd (New ''f3a9'' [] [Source ''hello'' [] False])"]
        WriteReaderWithHeaders_needs_int64
          [where headers = "[]" and key = "''file''"
             and filename = "''a.bin''" and rd = "Some 0"
             and m = "fst (New ''f3a9'' [] [Source ''hello'' [] False])"
             and h = "snd (New ''f3a9'' [] [Source ''hello'' [] False])"]
  by simp

subsection \<open>C10: construction and the boundary token\<close>

text \<open>
  Claim C10. For every string \<open>b\<close>, \<open>New(WithBoundary(b))\<close> returns a composer (there is
  no error to return); when the multipart writer rejects \<open>b\<close> the random boundary stays
  in effect; and \<open>Boundary()\<close>, the \<open>ContentType\<close> string and the trailer buffer all carry
  the same token.
\<close>

theorem New_WithBoundary_one_token:
  "case New rnd [WithBoundary b] h of
     (m, h') \<Rightarrow>
       (let tok = (if fst (SetBoundary b (NewWriter rnd (length h))) = None then b else rnd)
        in composer_ok m h'
           \<and> Boundary m = tok
           \<and> ContentType m = ''multipart/form-data; boundary='' @ tok
           \<and> buffer_at h' (closeBuffer m) = Some (CRLF @ ''--'' @ tok @ ''--'' @ CRLF))"
  by (simp add: New_def WithBoundary_def alloc_def NewWriter_def SetBoundary_def Let_def
        Boundary_def composer_ok_def buffer_at_def lookup_def nth_append)

theorem New_WithBoundary_one_token_witness:
  "(case New ''f3a9'' [WithBoundary ''X''] [] of
      (m, h') \<Rightarrow> Boundary m = ''X'' \<and> ContentType m = ''multipart/form-data; boundary=X''
          \<and> buffer_at h' (closeBuffer m) = Some (CRLF @ ''--X--'' @ CRLF))
   \<and> (case New ''f3a9'' [WithBoundary ''a b ''] [] of
      (m, h') \<Rightarrow> Boundary m = ''f3a9'' \<and> ContentType m = ''multipart/form-data; boundary=f3a9''
          \<and> buffer_at h' (closeBuffer m) = Some (CRLF @ ''--f3a9--'' @ CRLF))"
  using New_WithBoundary_one_token [where rnd = "''f3a9''" and b = "''X''" and h = "[]"]
        New_WithBoundary_one_token [where rnd = "''f3a9''" and b = "''a b ''" and h = "[]"]
  by (simp add: SetBoundary_def NewWriter_def isUpper_def isLower_def isDigit_def SQ_def
        Let_def split: prod.splits)

end
